theory Spec2Isabelle
  imports Main
begin

section \<open>Characters and strings\<close>

text \<open>
  A string is a list of code units; a \<^typ>\<open>char\<close> stands for one code unit in the range
  U+0000 to U+00FF. The character classes are those of the regular expressions of
  \<^verbatim>\<open>src/index.ts\<close> (no \<^verbatim>\<open>u\<close> flag): \<^verbatim>\<open>\s\<close> is white space and line terminators,
  \<^verbatim>\<open>\w\<close> is \<^verbatim>\<open>[A-Za-z0-9_]\<close>. \<^verbatim>\<open>toUpperCase\<close> and \<^verbatim>\<open>toLowerCase\<close> are applied by the
  source to keyword matches (letters A to Z only) or compared with words of such letters,
  so the model maps the letters a to z and A to Z and leaves every other code unit as it is.
\<close>

definition is_space :: "char \<Rightarrow> bool" where
  "is_space c = ((of_char c :: nat) \<in> {9, 10, 11, 12, 13, 32, 160})"

definition is_word :: "char \<Rightarrow> bool" where
  "is_word c =
     (let n = (of_char c :: nat)
      in (48 \<le> n \<and> n \<le> 57) \<or> (65 \<le> n \<and> n \<le> 90) \<or> n = 95 \<or> (97 \<le> n \<and> n \<le> 122))"

definition is_operator :: "char \<Rightarrow> bool" where
  "is_operator c = (c = CHR ''='' \<or> c = CHR ''<'' \<or> c = CHR ''>'' \<or> c = CHR ''!'')"

definition to_upper :: "char \<Rightarrow> char" where
  "to_upper c =
     (let n = (of_char c :: nat) in if 97 \<le> n \<and> n \<le> 122 then char_of (n - 32) else c)"

definition to_lower :: "char \<Rightarrow> char" where
  "to_lower c =
     (let n = (of_char c :: nat) in if 65 \<le> n \<and> n \<le> 90 then char_of (n + 32) else c)"

text \<open>The same four functions on the bits of a code unit (least significant first).\<close>

definition letter_bits :: "bool \<Rightarrow> bool \<Rightarrow> bool \<Rightarrow> bool \<Rightarrow> bool \<Rightarrow> bool" where
  "letter_bits b0 b1 b2 b3 b4 =
     ((b0 \<or> b1 \<or> b2 \<or> b3 \<or> b4) \<and> \<not> (b4 \<and> b3 \<and> (b2 \<or> (b1 \<and> b0))))"

definition toUpperCase :: "string \<Rightarrow> string" where
  "toUpperCase s = map to_upper s"

definition toLowerCase :: "string \<Rightarrow> string" where
  "toLowerCase s = map to_lower s"

definition trim :: "string \<Rightarrow> string" where
  "trim s = rev (dropWhile is_space (rev (dropWhile is_space s)))"

fun startsWith :: "string \<Rightarrow> string \<Rightarrow> bool" where
  "startsWith [] s = True"
| "startsWith (p # ps) [] = False"
| "startsWith (p # ps) (c # cs) = (p = c \<and> startsWith ps cs)"

definition endsWith :: "string \<Rightarrow> string \<Rightarrow> bool" where
  "endsWith suf s = startsWith (rev suf) (rev s)"

fun includes_str :: "string \<Rightarrow> string \<Rightarrow> bool" where
  "includes_str sub [] = (sub = [])"
| "includes_str sub (c # cs) = (startsWith sub (c # cs) \<or> includes_str sub cs)"

fun join_with :: "string \<Rightarrow> string list \<Rightarrow> string" where
  "join_with sep [] = []"
| "join_with sep [x] = x"
| "join_with sep (x # y # ys) = x @ sep @ join_with sep (y # ys)"

section \<open>Regular expression matching, global replace and split\<close>

text \<open>
  A matcher is one regular expression tried at one position: it is given the code unit
  before the position (\<open>None\<close> at the start of the string, which \<^verbatim>\<open>\b\<close> needs) and the rest
  of the string from the position on, and returns the length of the match there.
  No regular expression of the source matches the empty string, so a match of length 0
  is treated as no match.
\<close>

type_synonym matcher = "char option \<Rightarrow> string \<Rightarrow> nat option"

text \<open>\<^verbatim>\<open>s.replace(re, f)\<close> for a global \<open>re\<close>: leftmost matches, left to right, not overlapping.\<close>

function replace_all :: "matcher \<Rightarrow> (string \<Rightarrow> string) \<Rightarrow> char option \<Rightarrow> string \<Rightarrow> string" where
  "replace_all m f prev [] = []"
| "replace_all m f prev (c # cs) =
     (case m prev (c # cs) of
        None \<Rightarrow> c # replace_all m f (Some c) cs
      | Some n \<Rightarrow>
          if n = 0 then c # replace_all m f (Some c) cs
          else f (take n (c # cs))
                 @ replace_all m f (Some (last (take n (c # cs)))) (drop n (c # cs)))"
  by pat_completeness auto
termination
  by (relation "measure (\<lambda>(m, f, prev, s). length s)") auto

text \<open>
  \<^verbatim>\<open>s.split(re)\<close> where the whole match is the one capture group of \<open>re\<close>: the pieces
  between the matches alternate with the matched texts; \<open>acc\<close> is the piece read so far.
\<close>

function split_from :: "matcher \<Rightarrow> char option \<Rightarrow> string \<Rightarrow> string \<Rightarrow> string list" where
  "split_from m prev acc [] = [acc]"
| "split_from m prev acc (c # cs) =
     (case m prev (c # cs) of
        None \<Rightarrow> split_from m (Some c) (acc @ [c]) cs
      | Some n \<Rightarrow>
          if n = 0 then split_from m (Some c) (acc @ [c]) cs
          else acc # take n (c # cs)
                 # split_from m (Some (last (take n (c # cs)))) [] (drop n (c # cs)))"
  by pat_completeness auto
termination
  by (relation "measure (\<lambda>(m, prev, acc, s). length s)") auto

definition split_re :: "matcher \<Rightarrow> string \<Rightarrow> string list" where
  "split_re m s = split_from m None [] s"

subsection \<open>The regular expressions of the source\<close>

text \<open>\<^verbatim>\<open>/\s+/\<close>\<close>

definition re_spaces :: matcher where
  "re_spaces prev s =
     (let n = length (takeWhile is_space s) in if n = 0 then None else Some n)"

text \<open>\<^verbatim>\<open>/([=<>!]+)/\<close>\<close>

definition re_operators :: matcher where
  "re_operators prev s =
     (let n = length (takeWhile is_operator s) in if n = 0 then None else Some n)"

text \<open>\<^verbatim>\<open>/\s*X\s*/\<close> for one punctuation character \<open>X\<close> (comma, opening or closing parenthesis).\<close>

definition re_around :: "char \<Rightarrow> matcher" where
  "re_around x prev s =
     (case dropWhile is_space s of
        [] \<Rightarrow> None
      | c # r \<Rightarrow>
          if c = x then Some (length (takeWhile is_space s) + 1 + length (takeWhile is_space r))
          else None)"

text \<open>\<^verbatim>\<open>/(\w+)\s*\(/\<close>; the replacement \<^verbatim>\<open>'$1('\<close> keeps the word and drops the spaces.\<close>

definition re_call :: matcher where
  "re_call prev s =
     (let w = takeWhile is_word s; r = dropWhile is_word s
      in if w = [] then None
         else (case dropWhile is_space r of
                 [] \<Rightarrow> None
               | c # _ \<Rightarrow>
                   if c = CHR ''('' then Some (length w + length (takeWhile is_space r) + 1)
                   else None))"

definition call_replacement :: "string \<Rightarrow> string" where
  "call_replacement mt = takeWhile is_word mt @ ''(''"

text \<open>
  \<^verbatim>\<open>\b\<close>: exactly one of the code unit before the position and the code unit at the
  position is a word character; outside the string counts as not a word character.
\<close>

definition word_boundary :: "char option \<Rightarrow> string \<Rightarrow> bool" where
  "word_boundary prev s =
     ((case prev of None \<Rightarrow> False | Some p \<Rightarrow> is_word p)
        \<noteq> (case s of [] \<Rightarrow> False | c # _ \<Rightarrow> is_word c))"

text \<open>
  One alternative \<open>k\<close> of an alternation, under the \<^verbatim>\<open>i\<close> flag (both code units are
  canonicalized with \<^verbatim>\<open>toUpperCase\<close>), followed by \<^verbatim>\<open>\b\<close>; \<open>prev\<close> is the code unit
  before the position reached.
\<close>

fun match_ci :: "string \<Rightarrow> char option \<Rightarrow> string \<Rightarrow> bool" where
  "match_ci [] prev s = word_boundary prev s"
| "match_ci (k # ks) prev [] = False"
| "match_ci (k # ks) prev (c # cs) =
     (if to_upper c = to_upper k then match_ci ks (Some c) cs else False)"

text \<open>\<^verbatim>\<open>/\b(k1|k2|...)\b/i\<close>: the alternatives are tried in the order of the list.\<close>

definition re_words :: "string list \<Rightarrow> matcher" where
  "re_words ks prev s =
     (if word_boundary prev s
      then (case find (\<lambda>k. match_ci k prev s) ks of
              None \<Rightarrow> None
            | Some k \<Rightarrow> Some (length k))
      else None)"

definition SQL_KEYWORDS :: "string list" where
  "SQL_KEYWORDS =
     [''SELECT'', ''FROM'', ''WHERE'', ''AND'', ''OR'', ''INSERT'', ''UPDATE'', ''DELETE'',
      ''JOIN'', ''INNER JOIN'', ''LEFT JOIN'', ''RIGHT JOIN'', ''OUTER JOIN'',
      ''GROUP BY'', ''ORDER BY'', ''HAVING'', ''LIMIT'', ''OFFSET'', ''AS'',
      ''UNION'', ''ALL'', ''IN'', ''BETWEEN'', ''LIKE'', ''IS'', ''NULL'',
      ''CREATE'', ''TABLE'', ''DROP'', ''ALTER'', ''INDEX'', ''PRIMARY KEY'',
      ''FOREIGN KEY'', ''CONSTRAINT'', ''DEFAULT'', ''CASCADE'']"

definition keywords_list :: "string list" where
  "keywords_list = SQL_KEYWORDS @ [''DESC'', ''ASC'']"

definition keywordRegex :: matcher where
  "keywordRegex = re_words keywords_list"

definition MAIN_KEYWORDS :: "string list" where
  "MAIN_KEYWORDS =
     [''SELECT'', ''FROM'', ''WHERE'', ''GROUP BY'', ''HAVING'', ''ORDER BY'', ''LIMIT'']"

definition re_main :: matcher where
  "re_main = re_words MAIN_KEYWORDS"

text \<open>
  \<^verbatim>\<open>/\b((?:INNER |LEFT |RIGHT |OUTER )?JOIN\b)/i\<close>: the optional qualifier is tried first
  (greedy), each alternative with the rest of the pattern, then the pattern without it.
\<close>

definition JOIN_QUALIFIERS :: "string list" where
  "JOIN_QUALIFIERS = [''INNER '', ''LEFT '', ''RIGHT '', ''OUTER '']"

definition re_join :: matcher where
  "re_join prev s =
     (if word_boundary prev s
      then (case find (\<lambda>q. match_ci (q @ ''JOIN'') prev s) JOIN_QUALIFIERS of
              Some q \<Rightarrow> Some (length q + 4)
            | None \<Rightarrow> if match_ci ''JOIN'' prev s then Some 4 else None)
      else None)"

text \<open>\<^verbatim>\<open>/\bON\b/gi\<close>\<close>

definition re_on :: matcher where
  "re_on = re_words [''ON'']"

section \<open>The formatter\<close>

text \<open>
  \<^verbatim>\<open>SqlFormatterOptions\<close>: every field is optional. The two fields that the formatter
  reads are strings, so that a value outside the declared choices can be given.
\<close>

record SqlFormatterOptions =
  keywordCase :: "string option"
  indentStyle :: "string option"
  linesBetweenQueries :: "int option"
  maxColumnLength :: "int option"
  commaPosition :: "string option"

definition defaults :: SqlFormatterOptions where
  "defaults = \<lparr> keywordCase = None, indentStyle = None, linesBetweenQueries = None,
                maxColumnLength = None, commaPosition = None \<rparr>"

text \<open>\<^verbatim>\<open>!options.keywordCase\<close>: the field is absent or the empty string.\<close>

definition falsy :: "string option \<Rightarrow> bool" where
  "falsy v = (case v of None \<Rightarrow> True | Some s \<Rightarrow> s = [])"

text \<open>The only fault the source could raise: a method called on \<^verbatim>\<open>undefined\<close>.\<close>

datatype error = TypeError

subsection \<open>Normalization\<close>

definition normalize_whitespace :: "string \<Rightarrow> string" where
  "normalize_whitespace sql = trim (replace_all re_spaces (\<lambda>_. '' '') None sql)"

definition space_operators :: "string \<Rightarrow> string" where
  "space_operators s = replace_all re_operators (\<lambda>mt. '' '' @ mt @ '' '') None s"

definition comma_separator :: "SqlFormatterOptions \<Rightarrow> string" where
  "comma_separator opts = (if commaPosition opts = Some ''before'' then '' , '' else '', '')"

definition space_commas :: "SqlFormatterOptions \<Rightarrow> string \<Rightarrow> string" where
  "space_commas opts s = replace_all (re_around CHR '','') (\<lambda>_. comma_separator opts) None s"

definition open_parens :: "string \<Rightarrow> string" where
  "open_parens s = replace_all (re_around CHR ''('') (\<lambda>_. ''('') None s"

definition close_parens :: "string \<Rightarrow> string" where
  "close_parens s = replace_all (re_around CHR '')'') (\<lambda>_. '') '') None s"

definition collapse_spaces :: "string \<Rightarrow> string" where
  "collapse_spaces s = replace_all re_spaces (\<lambda>_. '' '') None s"

definition function_calls :: "string \<Rightarrow> string" where
  "function_calls s = replace_all re_call call_replacement None s"

definition normalize :: "SqlFormatterOptions \<Rightarrow> string \<Rightarrow> string" where
  "normalize opts sql =
     function_calls (collapse_spaces (close_parens (open_parens
       (space_commas opts (space_operators (normalize_whitespace sql))))))"

subsection \<open>Keyword case\<close>

definition keyword_case :: "SqlFormatterOptions \<Rightarrow> string \<Rightarrow> string" where
  "keyword_case opts s =
     (if keywordCase opts = Some ''upper'' \<or> falsy (keywordCase opts)
      then replace_all keywordRegex toUpperCase None s
      else if keywordCase opts = Some ''lower''
      then replace_all keywordRegex toLowerCase None s
      else s)"

subsection \<open>Clause segmentation\<close>

record loop_state =
  result :: "string list"
  currentPart :: string

definition push_current :: "loop_state \<Rightarrow> string list" where
  "push_current st =
     (if currentPart st \<noteq> [] then result st @ [trim (currentPart st)] else result st)"

text \<open>
  \<^verbatim>\<open>joinParts[i]\<close>: \<^verbatim>\<open>undefined\<close> when the index is out of range, and calling a string
  method on it raises.
\<close>

definition at_index :: "string list \<Rightarrow> nat \<Rightarrow> error + string" where
  "at_index xs i = (if i < length xs then Inr (xs ! i) else Inl TypeError)"

text \<open>
  The body of the loop over \<^verbatim>\<open>joinParts\<close>. The last two branches of the source append
  the part in the same way; the first of them reads \<^verbatim>\<open>joinParts[i-1]\<close>.
\<close>

definition join_body :: "string list \<Rightarrow> nat \<Rightarrow> loop_state \<Rightarrow> error + loop_state" where
  "join_body joinParts i st =
     (case at_index joinParts i of
        Inl e \<Rightarrow> Inl e
      | Inr p \<Rightarrow>
          let joinPart = trim p
          in if joinPart = [] then Inr st
             else if endsWith ''JOIN'' (toUpperCase joinPart)
             then Inr \<lparr> result = push_current st, currentPart = joinPart \<rparr>
             else if i > 0
             then (case at_index joinParts (i - 1) of
                     Inl e \<Rightarrow> Inl e
                   | Inr q \<Rightarrow>
                       if endsWith ''JOIN'' (toUpperCase q)
                       then Inr (st\<lparr> currentPart := currentPart st @ '' '' @ joinPart \<rparr>)
                       else Inr (st\<lparr> currentPart := currentPart st @ '' '' @ joinPart \<rparr>))
             else Inr (st\<lparr> currentPart := currentPart st @ '' '' @ joinPart \<rparr>))"

function join_loop :: "string list \<Rightarrow> nat \<Rightarrow> loop_state \<Rightarrow> error + loop_state" where
  "join_loop joinParts i st =
     (if i < length joinParts
      then (case join_body joinParts i st of
              Inl e \<Rightarrow> Inl e
            | Inr st' \<Rightarrow> join_loop joinParts (Suc i) st')
      else Inr st)"
  by pat_completeness auto
termination
  by (relation "measure (\<lambda>(joinParts, i, st). length joinParts - i)") auto

text \<open>The body of the loop over \<^verbatim>\<open>mainParts\<close>.\<close>

definition main_body :: "string \<Rightarrow> loop_state \<Rightarrow> error + loop_state" where
  "main_body part st =
     (if trim part = [] then Inr st
      else if toUpperCase (trim part) \<in> set MAIN_KEYWORDS
      then Inr \<lparr> result = push_current st, currentPart = part \<rparr>
      else join_loop (split_re re_join part) 0 st)"

fun main_loop :: "string list \<Rightarrow> loop_state \<Rightarrow> error + loop_state" where
  "main_loop [] st = Inr st"
| "main_loop (part # parts) st =
     (case main_body part st of
        Inl e \<Rightarrow> Inl e
      | Inr st' \<Rightarrow> main_loop parts st')"

definition segment :: "string \<Rightarrow> error + string list" where
  "segment s =
     (case main_loop (split_re re_main s) \<lparr> result = [], currentPart = [] \<rparr> of
        Inl e \<Rightarrow> Inl e
      | Inr st \<Rightarrow> Inr (push_current st))"

subsection \<open>Assembly\<close>

definition onKeyword :: "SqlFormatterOptions \<Rightarrow> string" where
  "onKeyword opts = (if keywordCase opts = Some ''lower'' then ''on'' else ''ON'')"

definition fix_on :: "SqlFormatterOptions \<Rightarrow> string \<Rightarrow> string" where
  "fix_on opts clause =
     (if includes_str ''JOIN'' (toUpperCase clause)
      then replace_all re_on (\<lambda>_. onKeyword opts) None clause
      else clause)"

definition assemble :: "SqlFormatterOptions \<Rightarrow> string list \<Rightarrow> string" where
  "assemble opts clauses =
     join_with [CHR 0x0A] (map (fix_on opts) (filter (\<lambda>c. c \<noteq> []) clauses))"

definition formatSqlString :: "string \<Rightarrow> SqlFormatterOptions \<Rightarrow> error + string" where
  "formatSqlString sql opts =
     (case segment (keyword_case opts (normalize opts sql)) of
        Inl e \<Rightarrow> Inl e
      | Inr clauses \<Rightarrow> Inr (assemble opts clauses))"

section \<open>Notions used in the statements\<close>

text \<open>
  The code unit before a position, when the text \<open>xs\<close> lies between the position and a
  point whose preceding code unit is \<open>prev\<close>.
\<close>

definition last_before :: "char option \<Rightarrow> string \<Rightarrow> char option" where
  "last_before prev xs = (if xs = [] then prev else Some (last xs))"

text \<open>
  \<open>w\<close> is a whole word between \<open>xs\<close> and \<open>ys\<close>: it is not empty and there is a word
  boundary on each side of it in the string \<open>xs @ w @ ys\<close>.
\<close>

definition whole_word :: "string \<Rightarrow> string \<Rightarrow> string \<Rightarrow> bool" where
  "whole_word xs w ys =
     (w \<noteq> [] \<and> word_boundary (last_before None xs) (w @ ys) \<and> word_boundary (Some (last w)) ys)"

text \<open>
  \<open>w\<close> is a whole-word, case-insensitive occurrence of a recognized keyword, or of
  \<^verbatim>\<open>ON\<close>, between \<open>xs\<close> and \<open>ys\<close>.
\<close>

definition keyword_at :: "string \<Rightarrow> string \<Rightarrow> string \<Rightarrow> bool" where
  "keyword_at xs w ys = (toUpperCase w \<in> set keywords_list \<and> whole_word xs w ys)"


text \<open>
  Two properties of a list of alternatives that make a global replace on
  \<^verbatim>\<open>/\b(k1|k2|...)\b/gi\<close> reach every whole-word occurrence: every alternative is a
  non-empty word in upper case, and no alternative has, up to a word boundary inside it,
  a beginning that is the end of an alternative (so that an occurrence never starts
  inside a match and ends outside it).
\<close>

definition upper_words :: "string list \<Rightarrow> bool" where
  "upper_words ks = (\<forall>k\<in>set ks. k \<noteq> [] \<and> toUpperCase k = k)"

definition inner_prefixes :: "string \<Rightarrow> string list" where
  "inner_prefixes k =
     map (\<lambda>j. take j k) (filter (\<lambda>j. is_word (k ! (j - 1)) \<noteq> is_word (k ! j)) [1..<length k])"

definition overlap_free :: "string list \<Rightarrow> bool" where
  "overlap_free ks =
     (\<forall>k\<in>set ks. \<forall>p\<in>set (inner_prefixes k). \<forall>k'\<in>set ks. \<not> endsWith p k')"





text \<open>
  The code units of a string that are not white space, in order; a string of white space
  only.
\<close>

definition non_space :: "string \<Rightarrow> string" where
  "non_space s = filter (\<lambda>c. \<not> is_space c) s"

definition blank :: "string \<Rightarrow> bool" where
  "blank s = (\<forall>c\<in>set s. is_space c)"

text \<open>
  Notions for formatting a second time. The skeleton of a string is the list of its code
  units that are not white space, each with the flag "white space before it"; \<open>rend\<close>
  writes a skeleton back with single blanks, and \<open>respace\<close> sets the flags again from a
  rule on the code unit before, the code unit and the flag. Two strings are related by
  \<open>srel\<close> when the second is the first with some letters in upper case and some blanks
  inserted where they separate no word. The loops over the parts of a split are folds of
  \<open>jstep\<close>, \<open>mstep\<close> and \<open>fstep\<close>.
\<close>

fun skel :: "bool \<Rightarrow> string \<Rightarrow> (bool \<times> char) list" where
  "skel b [] = []"
| "skel b (c # cs) = (if is_space c then skel True cs else (b, c) # skel False cs)"

fun pend :: "bool \<Rightarrow> string \<Rightarrow> bool" where
  "pend b [] = b"
| "pend b (c # cs) = (if is_space c then pend True cs else pend False cs)"

fun rend :: "(bool \<times> char) list \<Rightarrow> string" where
  "rend [] = []"
| "rend ((b, c) # xs) = (if b then CHR '' '' # c # rend xs else c # rend xs)"

fun respace :: "(char option \<Rightarrow> char \<Rightarrow> bool \<Rightarrow> bool) \<Rightarrow> char option \<Rightarrow> (bool \<times> char) list
    \<Rightarrow> (bool \<times> char) list" where
  "respace R q [] = []"
| "respace R q ((b, c) # xs) = (R q c b, c) # respace R (Some c) xs"

fun lastc :: "char option \<Rightarrow> (bool \<times> char) list \<Rightarrow> char option" where
  "lastc q [] = q"
| "lastc q ((b, c) # xs) = lastc (Some c) xs"

fun tidy :: "bool \<Rightarrow> string \<Rightarrow> bool" where
  "tidy b [] = True"
| "tidy b (c # cs) = (if is_space c then c = CHR '' '' \<and> \<not> b \<and> tidy True cs else tidy False cs)"

definition nsl :: "(bool \<times> char) list \<Rightarrow> bool" where
  "nsl xs = (\<forall>c\<in>set (map snd xs). \<not> is_space c)"

definition unlead :: "char option \<Rightarrow> char \<Rightarrow> bool \<Rightarrow> bool" where
  "unlead q c b = (q \<noteq> None \<and> b)"

definition isopq :: "char option \<Rightarrow> bool" where
  "isopq q = (case q of None \<Rightarrow> False | Some p \<Rightarrow> is_operator p)"

definition Rop :: "char option \<Rightarrow> char \<Rightarrow> bool \<Rightarrow> bool" where
  "Rop q c b = (if is_operator c \<noteq> isopq q then True else b)"

definition Eop :: "char option \<Rightarrow> bool \<Rightarrow> bool" where
  "Eop q b = (isopq q \<or> b)"

definition Rx :: "char \<Rightarrow> bool \<Rightarrow> char option \<Rightarrow> char \<Rightarrow> bool \<Rightarrow> bool" where
  "Rx x post q c b = (if q = Some x then post else if c = x then False else b)"

definition Ex :: "char \<Rightarrow> bool \<Rightarrow> char option \<Rightarrow> bool \<Rightarrow> bool" where
  "Ex x post q b = (if q = Some x then post else b)"

definition Rn :: "char option \<Rightarrow> char \<Rightarrow> bool \<Rightarrow> bool" where
  "Rn q c b = Rx CHR '')'' True q c (Rx CHR ''('' False q c (Rx CHR '','' True q c
                (Rop q c (unlead q c b))))"

definition En :: "char option \<Rightarrow> bool" where
  "En q = Ex CHR '')'' True q (Ex CHR ''('' False q (Ex CHR '','' True q (Eop q False)))"

definition pre_calls :: "string \<Rightarrow> string" where
  "pre_calls sql = collapse_spaces (close_parens (open_parens
       (space_commas defaults (space_operators (normalize_whitespace sql)))))"

definition raise :: "char \<Rightarrow> char \<Rightarrow> bool" where
  "raise c c' = (c' = c \<or> c' = to_upper c)"

definition harmless :: "char option \<Rightarrow> char \<Rightarrow> bool" where
  "harmless p c =
     (\<not> is_space c \<and> (case p of None \<Rightarrow> True | Some a \<Rightarrow> \<not> is_space a \<and> \<not> (is_word a \<and> is_word c)))"

definition endok :: "char option \<Rightarrow> bool" where
  "endok p = (case p of None \<Rightarrow> True | Some a \<Rightarrow> \<not> is_space a)"

inductive srel :: "char option \<Rightarrow> string \<Rightarrow> string \<Rightarrow> bool" where
  srel_Nil: "srel p [] []"
| srel_End: "endok p \<Longrightarrow> srel p [] '' ''"
| srel_Keep: "raise c c' \<Longrightarrow> srel (Some c) s t \<Longrightarrow> srel p (c # s) (c' # t)"
| srel_Ins: "harmless p c \<Longrightarrow> raise c c' \<Longrightarrow> srel (Some c) s t \<Longrightarrow> srel p (c # s) (CHR '' '' # c' # t)"

fun shp :: "char \<Rightarrow> string \<Rightarrow> bool" where
  "shp k0 [] = is_word k0"
| "shp k0 (k1 # ks) = ((is_word k0 \<or> (k0 = CHR '' '' \<and> is_word k1)) \<and> shp k1 ks)"

definition kwshape :: "string \<Rightarrow> bool" where
  "kwshape k = (case k of [] \<Rightarrow> False | k0 # ks \<Rightarrow> is_word k0 \<and> shp k0 ks)"

definition wordp :: "char option \<Rightarrow> bool" where
  "wordp p = (case p of None \<Rightarrow> False | Some a \<Rightarrow> is_word a)"

definition oraise :: "char option \<Rightarrow> char option \<Rightarrow> bool" where
  "oraise p p' = (case p of None \<Rightarrow> p' = None | Some a \<Rightarrow> (\<exists>a'. p' = Some a' \<and> raise a a'))"

fun pieces_rel :: "char option \<Rightarrow> string list \<Rightarrow> string list \<Rightarrow> bool" where
  "pieces_rel p [] L' = False"
| "pieces_rel p [a] L' = (case L' of [a'] \<Rightarrow> srel p a a' | _ \<Rightarrow> False)"
| "pieces_rel p (a # w # L) L' =
     (case L' of a' # w' # L'' \<Rightarrow>
        srel p a a' \<and> w \<noteq> [] \<and> list_all2 raise w w' \<and> pieces_rel (Some (last w)) L L''
      | _ \<Rightarrow> False)"

definition tails :: "string list \<Rightarrow> string list \<Rightarrow> bool" where
  "tails R R' =
     (case R of [] \<Rightarrow> R' = []
      | w # L \<Rightarrow> (case R' of [] \<Rightarrow> False
                   | w' # L' \<Rightarrow> w \<noteq> [] \<and> list_all2 raise w w' \<and> pieces_rel (Some (last w)) L L'))"

definition setf :: "bool \<Rightarrow> (bool \<times> char) list \<Rightarrow> (bool \<times> char) list" where
  "setf b xs = (case xs of [] \<Rightarrow> [] | x # r \<Rightarrow> (b, snd x) # r)"

definition chunk :: "string \<Rightarrow> (bool \<times> char) list" where
  "chunk s = setf True (skel False s)"

definition jstep :: "loop_state \<Rightarrow> string \<Rightarrow> loop_state" where
  "jstep st p =
     (let t = trim p
      in if t = [] then st
         else if endsWith ''JOIN'' (toUpperCase t)
         then \<lparr> result = push_current st, currentPart = t \<rparr>
         else st\<lparr> currentPart := currentPart st @ '' '' @ t \<rparr>)"

definition mstep :: "loop_state \<Rightarrow> string \<Rightarrow> loop_state" where
  "mstep st part =
     (if trim part = [] then st
      else if toUpperCase (trim part) \<in> set MAIN_KEYWORDS
      then \<lparr> result = push_current st, currentPart = part \<rparr>
      else foldl jstep st (split_re re_join part))"

definition sub_pieces :: "string \<Rightarrow> string list" where
  "sub_pieces part =
     (if toUpperCase (trim part) \<in> set MAIN_KEYWORDS then [part] else split_re re_join part)"

definition flatp :: "string \<Rightarrow> string list" where
  "flatp s = concat (map sub_pieces (split_re re_main s))"

definition och :: "loop_state \<Rightarrow> (bool \<times> char) list" where
  "och st = concat (map chunk (push_current st))"

definition fr :: "bool \<times> char \<Rightarrow> bool \<times> char \<Rightarrow> bool" where
  "fr x y = (fst x = fst y \<and> raise (snd x) (snd y))"

definition nomatch :: "matcher \<Rightarrow> char option \<Rightarrow> string \<Rightarrow> string \<Rightarrow> bool" where
  "nomatch m p a rest =
     (\<forall>u v. a = u @ v \<and> v \<noteq> [] \<longrightarrow>
        m (last_before p u) (v @ rest) = None \<or> m (last_before p u) (v @ rest) = Some 0)"

inductive isplit :: "matcher \<Rightarrow> char option \<Rightarrow> string \<Rightarrow> string list \<Rightarrow> bool" where
  isplit_last: "nomatch m p a [] \<Longrightarrow> isplit m p a [a]"
| isplit_step: "nomatch m p a (w @ r) \<Longrightarrow> m (last_before p a) (w @ r) = Some n \<Longrightarrow> n > 0
     \<Longrightarrow> take n (w @ r) = w \<Longrightarrow> w \<noteq> [] \<Longrightarrow> isplit m (Some (last w)) r L
     \<Longrightarrow> isplit m p (a @ w @ r) (a # w # L)"

definition goodks :: "string list \<Rightarrow> bool" where
  "goodks ks = (upper_words ks \<and> (\<forall>k\<in>set ks. kwshape k))"

fun evens :: "'a list \<Rightarrow> 'a list" where
  "evens [] = []"
| "evens [a] = [a]"
| "evens (a # w # L) = a # evens L"

fun odds :: "'a list \<Rightarrow> 'a list" where
  "odds [] = []"
| "odds [a] = []"
| "odds (a # w # L) = w # odds L"

definition JOINS :: "string list" where
  "JOINS = [''INNER JOIN'', ''LEFT JOIN'', ''RIGHT JOIN'', ''OUTER JOIN'', ''JOIN'']"

definition cut1 :: "string \<Rightarrow> string \<Rightarrow> bool" where
  "cut1 u s = (u = [] \<or> s = [] \<or> \<not> (is_word (last u) \<and> is_word (hd s)))"

fun cuts_ok :: "string \<Rightarrow> string list \<Rightarrow> bool" where
  "cuts_ok u [] = True"
| "cuts_ok u (p # ps) = (cut1 u p \<and> cuts_ok (u @ p) ps)"

fun chunks :: "bool \<Rightarrow> string list \<Rightarrow> (bool \<times> char) list list" where
  "chunks b [] = []"
| "chunks b (p # ps) = skel b p # chunks (pend b p) ps"

definition cutok :: "char option \<Rightarrow> (bool \<times> char) list \<Rightarrow> bool" where
  "cutok q M =
     (case M of [] \<Rightarrow> True
      | x # _ \<Rightarrow> fst x \<or> (case q of None \<Rightarrow> True | Some a \<Rightarrow> \<not> (is_word a \<and> is_word (snd x))))"

fun cutoks :: "char option \<Rightarrow> (bool \<times> char) list list \<Rightarrow> bool" where
  "cutoks q [] = True"
| "cutoks q (M # Ms) = (cutok q M \<and> cutoks (lastc q M) Ms)"

fun cat :: "(string \<Rightarrow> string) \<Rightarrow> string list \<Rightarrow> string" where
  "cat f [] = []"
| "cat f [a] = a"
| "cat f (a # w # L) = a @ f w @ cat f L"

definition hz :: "char option \<Rightarrow> char \<Rightarrow> bool" where
  "hz q c = (case q of None \<Rightarrow> False | Some a \<Rightarrow> \<not> (is_word a \<and> is_word c))"

fun skrel :: "char option \<Rightarrow> (bool \<times> char) list \<Rightarrow> (bool \<times> char) list \<Rightarrow> bool" where
  "skrel q [] [] = True"
| "skrel q ((f, c) # xs) ((g, c') # ys) =
     (raise c c' \<and> (g = f \<or> (\<not> f \<and> g \<and> hz q c)) \<and> skrel (Some c) xs ys)"
| "skrel q [] (y # ys) = False"
| "skrel q (x # xs) [] = False"

definition crel :: "(bool \<times> char) list \<Rightarrow> (bool \<times> char) list \<Rightarrow> bool" where
  "crel M X = list_all2 fr (setf True M) (setf True X)"

definition tagged :: "string \<Rightarrow> (bool \<times> string) list" where
  "tagged part =
     (if toUpperCase (trim part) \<in> set MAIN_KEYWORDS then [(True, part)]
      else map (Pair False) (split_re re_join part))"

definition tflat :: "string \<Rightarrow> (bool \<times> string) list" where
  "tflat s = concat (map tagged (split_re re_main s))"

definition fstep :: "loop_state \<Rightarrow> bool \<times> string \<Rightarrow> loop_state" where
  "fstep st kp =
     (if fst kp then \<lparr> result = push_current st, currentPart = snd kp \<rparr> else jstep st (snd kp))"

fun tfl :: "string list \<Rightarrow> (bool \<times> string) list" where
  "tfl [] = []"
| "tfl [a] = map (Pair False) (split_re re_join a)"
| "tfl (a # w # L) = map (Pair False) (split_re re_join a) @ (True, w) # tfl L"

definition R0 :: "bool \<times> string \<Rightarrow> bool \<times> string \<Rightarrow> bool" where
  "R0 kp kp' = (fst kp = fst kp' \<and> (\<exists>q. srel q (snd kp) (snd kp')))"

definition RT :: "bool \<times> string \<Rightarrow> bool \<times> string \<Rightarrow> bool" where
  "RT kp kp' =
     (fst kp = fst kp' \<and> list_all2 raise (trim (snd kp)) (trim (snd kp'))
      \<and> (fst kp \<longrightarrow> trim (snd kp) = snd kp \<and> trim (snd kp') = snd kp'))"

definition strel :: "loop_state \<Rightarrow> loop_state \<Rightarrow> bool" where
  "strel st st' =
     (list_all2 (list_all2 raise) (result st) (result st')
      \<and> list_all2 raise (currentPart st) (currentPart st'))"

section \<open>Evaluation on the bits of a code unit\<close>

lemma is_space_bits [code]:
  "is_space (Char b0 b1 b2 b3 b4 b5 b6 b7) =
     (\<not> b6 \<and> ((\<not> b7 \<and> \<not> b5 \<and> \<not> b4 \<and> b3 \<and> (b0 \<or> b1 \<or> b2) \<and> \<not> (b2 \<and> b1))
             \<or> (b5 \<and> \<not> b4 \<and> \<not> b3 \<and> \<not> b2 \<and> \<not> b1 \<and> \<not> b0)))"
  by (cases b0; cases b1; cases b2; cases b3; cases b4; cases b5; cases b6; cases b7;
      simp add: is_space_def)

lemma is_word_bits [code]:
  "is_word (Char b0 b1 b2 b3 b4 b5 b6 b7) =
     (\<not> b7 \<and> ((\<not> b6 \<and> b5 \<and> b4 \<and> (\<not> b3 \<or> (\<not> b2 \<and> \<not> b1)))
             \<or> (b6 \<and> (letter_bits b0 b1 b2 b3 b4
                        \<or> (\<not> b5 \<and> b4 \<and> b3 \<and> b2 \<and> b1 \<and> b0)))))"
  by (cases b0; cases b1; cases b2; cases b3; cases b4; cases b5; cases b6; cases b7;
      simp add: is_word_def letter_bits_def)

lemma to_upper_bits [code]:
  "to_upper (Char b0 b1 b2 b3 b4 b5 b6 b7) =
     (if \<not> b7 \<and> b6 \<and> b5 \<and> letter_bits b0 b1 b2 b3 b4
      then Char b0 b1 b2 b3 b4 False b6 b7 else Char b0 b1 b2 b3 b4 b5 b6 b7)"
  by (cases b0; cases b1; cases b2; cases b3; cases b4; cases b5; cases b6; cases b7;
      simp add: to_upper_def letter_bits_def char_of_def bit_simps)

lemma to_lower_bits [code]:
  "to_lower (Char b0 b1 b2 b3 b4 b5 b6 b7) =
     (if \<not> b7 \<and> b6 \<and> \<not> b5 \<and> letter_bits b0 b1 b2 b3 b4
      then Char b0 b1 b2 b3 b4 True b6 b7 else Char b0 b1 b2 b3 b4 b5 b6 b7)"
  by (cases b0; cases b1; cases b2; cases b3; cases b4; cases b5; cases b6; cases b7;
      simp add: to_lower_def letter_bits_def char_of_def bit_simps)

declare join_loop.simps [simp del]

section \<open>Facts about characters and string helpers\<close>

lemma to_upper_idem: "to_upper (to_upper c) = to_upper c"
  by (cases c) (simp add: to_upper_bits letter_bits_def)

lemma to_upper_lower: "to_upper (to_lower c) = to_upper c"
  by (cases c) (auto simp add: to_upper_bits to_lower_bits letter_bits_def)

lemma is_word_upper: "is_word (to_upper c) = is_word c"
  by (cases c) (auto simp add: to_upper_bits is_word_bits letter_bits_def)

lemma is_word_ci: "to_upper a = to_upper b \<Longrightarrow> is_word a = is_word b"
  by (metis is_word_upper)

lemma toUpperCase_idem: "toUpperCase (toUpperCase w) = toUpperCase w"
  by (simp add: toUpperCase_def to_upper_idem)

lemma length_toUpperCase: "length (toUpperCase w) = length w"
  by (simp add: toUpperCase_def)

lemma comma_not_space: "\<not> is_space CHR '',''"
  by code_simp

lemma blank_is_space: "is_space CHR '' ''"
  by code_simp

lemma blank_space: "is_space CHR '' ''"
  by code_simp

lemma paren_not_space: "\<not> is_space CHR ''(''" "\<not> is_space CHR '')''"
  by code_simp+

lemma word_not_space: "is_word c \<Longrightarrow> \<not> is_space c"
  by (cases c) (auto simp: is_word_bits is_space_bits letter_bits_def)

lemma word_not_paren: "is_word c \<Longrightarrow> c \<noteq> CHR ''('' \<and> c \<noteq> CHR '')''"
  by (cases c) (auto simp: is_word_bits letter_bits_def)

lemma to_lower_of_O: "to_upper c = CHR ''O'' \<Longrightarrow> to_lower c = CHR ''o''"
  by (cases c) (auto simp: to_upper_bits to_lower_bits letter_bits_def split: if_splits)

lemma to_lower_of_N: "to_upper c = CHR ''N'' \<Longrightarrow> to_lower c = CHR ''n''"
  by (cases c) (auto simp: to_upper_bits to_lower_bits letter_bits_def split: if_splits)

lemma upper_ON:
  assumes "toUpperCase w = ''ON''"
  shows "toLowerCase w = ''on''"
proof -
  from assms obtain a b where w: "w = [a, b]"
    unfolding toUpperCase_def by (cases w; cases "tl w"; cases "tl (tl w)") auto
  with assms show ?thesis
    unfolding toUpperCase_def toLowerCase_def by (simp add: to_lower_of_O to_lower_of_N)
qed

lemma startsWith_iff: "startsWith p s \<longleftrightarrow> (\<exists>r. s = p @ r)"
  by (induction p s rule: startsWith.induct) auto

lemma endsWith_iff: "endsWith suf s \<longleftrightarrow> (\<exists>r. s = r @ suf)"
proof -
  have "endsWith suf s \<longleftrightarrow> (\<exists>r. rev s = rev suf @ r)"
    by (simp add: endsWith_def startsWith_iff)
  also have "\<dots> \<longleftrightarrow> (\<exists>r. s = r @ suf)"
  proof
    assume "\<exists>r. rev s = rev suf @ r"
    then obtain r where "rev s = rev suf @ r" by blast
    then have "rev (rev s) = rev (rev suf @ r)" by simp
    then have "s = rev r @ suf" by simp
    then show "\<exists>r. s = r @ suf" by blast
  next
    assume "\<exists>r. s = r @ suf"
    then obtain r where "s = r @ suf" by blast
    then have "rev s = rev suf @ rev r" by simp
    then show "\<exists>r. rev s = rev suf @ r" by blast
  qed
  finally show ?thesis .
qed

section \<open>Facts about matching and global replace\<close>

lemma match_ci_iff:
  "match_ci k prev s \<longleftrightarrow>
     (\<exists>w r. s = w @ r \<and> length w = length k \<and> toUpperCase w = toUpperCase k
            \<and> word_boundary (last_before prev w) r)"
proof (induction k prev s rule: match_ci.induct)
  case (1 prev s)
  then show ?case by (simp add: last_before_def toUpperCase_def)
next
  case (2 k ks prev)
  then show ?case by (simp add: toUpperCase_def)
next
  case (3 k ks prev c cs)
  show ?case
  proof (cases "to_upper c = to_upper k")
    case True
    have "(\<exists>w r. c # cs = w @ r \<and> length w = length (k # ks) \<and> toUpperCase w = toUpperCase (k # ks)
            \<and> word_boundary (last_before prev w) r)
        \<longleftrightarrow> (\<exists>w r. cs = w @ r \<and> length w = length ks \<and> toUpperCase w = toUpperCase ks
            \<and> word_boundary (last_before (Some c) w) r)" (is "?L \<longleftrightarrow> ?R")
    proof
      assume ?L
      then obtain w r where h: "c # cs = w @ r" "length w = length (k # ks)"
        "toUpperCase w = toUpperCase (k # ks)" "word_boundary (last_before prev w) r" by blast
      then obtain w' where w: "w = c # w'" by (cases w) auto
      with h have "cs = w' @ r" "length w' = length ks" "toUpperCase w' = toUpperCase ks"
        "word_boundary (last_before (Some c) w') r"
        by (auto simp: toUpperCase_def last_before_def)
      then show ?R by blast
    next
      assume ?R
      then obtain w r where h: "cs = w @ r" "length w = length ks"
        "toUpperCase w = toUpperCase ks" "word_boundary (last_before (Some c) w) r" by blast
      with True have "c # cs = (c # w) @ r" "length (c # w) = length (k # ks)"
        "toUpperCase (c # w) = toUpperCase (k # ks)" "word_boundary (last_before prev (c # w)) r"
        by (auto simp: toUpperCase_def last_before_def)
      then show ?L by blast
    qed
    with True 3 show ?thesis by simp
  next
    case False
    then show ?thesis by (auto simp: toUpperCase_def Cons_eq_append_conv)
  qed
qed

lemma re_words_Some:
  assumes "re_words ks prev s = Some n"
  shows "\<exists>k\<in>set ks. n = length k \<and> match_ci k prev s"
  using assms
  by (auto simp: re_words_def find_Some_iff split: if_splits option.splits)

lemma re_words_None:
  assumes "re_words ks prev s = None" "word_boundary prev s" "k \<in> set ks"
  shows "\<not> match_ci k prev s"
  using assms
  by (auto simp: re_words_def find_None_iff split: if_splits option.splits)

lemma word_boundary_Some_Cons:
  "word_boundary (Some a) (b # r) \<longleftrightarrow> is_word a \<noteq> is_word b"
  by (simp add: word_boundary_def)

lemma replace_all_no_match:
  assumes "\<not> (\<exists>n. m prev (c # cs) = Some n \<and> n > 0)"
  shows "replace_all m f prev (c # cs) = c # replace_all m f (Some c) cs"
  using assms by (auto split: option.splits)

lemma replace_all_match:
  assumes "m prev (w @ r) = Some (length w)" "w \<noteq> []"
  shows "replace_all m f prev (w @ r) = f w @ replace_all m f (Some (last w)) r"
proof -
  obtain c cs where s: "w @ r = c # cs" using assms(2) by (cases w) auto
  have "replace_all m f prev (c # cs)
          = f (take (length w) (c # cs))
              @ replace_all m f (Some (last (take (length w) (c # cs)))) (drop (length w) (c # cs))"
    using assms s by (simp del: take.simps drop.simps)
  then show ?thesis unfolding s[symmetric] by simp
qed

lemma replace_all_length:
  assumes "\<And>w. length (f w) = length w"
  shows "length (replace_all m f prev s) = length s"
proof (induction "length s" arbitrary: s prev rule: less_induct)
  case less
  show ?case
  proof (cases s)
    case Nil
    then show ?thesis by simp
  next
    case (Cons c cs)
    show ?thesis
    proof (cases "\<exists>n. m prev (c # cs) = Some n \<and> n > 0")
      case False
      then have "replace_all m f prev (c # cs) = c # replace_all m f (Some c) cs"
        by (rule replace_all_no_match)
      with Cons less.hyps[of cs "Some c"] show ?thesis by simp
    next
      case True
      then obtain n where n: "m prev (c # cs) = Some n" "n > 0" by blast
      let ?w = "take n (c # cs)" and ?r = "drop n (c # cs)"
      have "length ?r < length s" using n Cons by simp
      then have ih: "length (replace_all m f (Some (last ?w)) ?r) = length ?r"
        by (rule less.hyps)
      have "replace_all m f prev (c # cs) = f ?w @ replace_all m f (Some (last ?w)) ?r"
        using n by (simp del: take.simps drop.simps)
      then have "length (replace_all m f prev (c # cs)) = length ?w + length ?r"
        by (simp only: length_append assms ih)
      also have "\<dots> = length (?w @ ?r)" by (simp only: length_append)
      also have "\<dots> = length (c # cs)" by (simp only: append_take_drop_id)
      finally show ?thesis using Cons by simp
    qed
  qed
qed

lemma replace_all_map:
  assumes "\<And>c. h (g c) = h c"
  shows "map h (replace_all m (map g) prev s) = map h s"
proof (induction m "map g" prev s rule: replace_all.induct)
  case (1 m prev)
  then show ?case by simp
next
  case (2 m prev c cs)
  show ?case
  proof (cases "m prev (c # cs)")
    case None
    with 2 show ?thesis by simp
  next
    case (Some n)
    show ?thesis
    proof (cases "n = 0")
      case True
      with Some 2 show ?thesis by simp
    next
      case False
      have "map h (replace_all m (map g) prev (c # cs))
              = map h (map g (take n (c # cs)))
                @ map h (replace_all m (map g) (Some (last (take n (c # cs)))) (drop n (c # cs)))"
        using Some False by (simp del: take.simps drop.simps)
      also have "\<dots> = map h (take n (c # cs)) @ map h (drop n (c # cs))"
        using 2(3)[OF Some False] assms by simp
      also have "\<dots> = map h (c # cs)"
        unfolding map_append[symmetric] append_take_drop_id ..
      finally show ?thesis .
    qed
  qed
qed

lemma replace_all_cong:
  assumes "\<And>prev s n. m prev s = Some n \<Longrightarrow> n > 0 \<Longrightarrow> f (take n s) = f' (take n s)"
  shows "replace_all m f prev s = replace_all m f' prev s"
proof (induction "length s" arbitrary: s prev rule: less_induct)
  case less
  show ?case
  proof (cases s)
    case Nil
    then show ?thesis by simp
  next
    case (Cons c cs)
    show ?thesis
    proof (cases "m prev (c # cs)")
      case None
      with Cons less.hyps[of cs "Some c"] show ?thesis by simp
    next
      case (Some n)
      show ?thesis
      proof (cases "n = 0")
        case True
        with Some Cons less.hyps[of cs "Some c"] show ?thesis by simp
      next
        case False
        have "length (drop n (c # cs)) < length s" using False Cons by simp
        then have "replace_all m f (Some (last (take n (c # cs)))) (drop n (c # cs))
             = replace_all m f' (Some (last (take n (c # cs)))) (drop n (c # cs))"
          by (rule less.hyps)
        moreover have "f (take n (c # cs)) = f' (take n (c # cs))"
          using assms[OF Some] False by simp
        ultimately show ?thesis
          using Some False Cons by (simp del: take.simps drop.simps)
      qed
    qed
  qed
qed

subsection \<open>Every whole-word occurrence lies inside a match\<close>

lemma overlap_contra:
  assumes of: "overlap_free ks" and k: "k \<in> set ks" and k': "k' \<in> set ks"
    and i: "i < length k'" and j: "length k' - i < length k"
    and eq: "drop i k' = take (length k' - i) k"
    and b: "is_word (k ! (length k' - i - 1)) \<noteq> is_word (k ! (length k' - i))"
  shows False
proof -
  let ?j = "length k' - i"
  have j1: "1 \<le> ?j" using i by simp
  have "?j \<in> set (filter (\<lambda>j. is_word (k ! (j - 1)) \<noteq> is_word (k ! j)) [1..<length k])"
    using j j1 b by simp
  then have "take ?j k \<in> set (inner_prefixes k)"
    unfolding inner_prefixes_def set_map by (rule imageI)
  moreover have "endsWith (take ?j k) k'"
    unfolding endsWith_iff using eq append_take_drop_id[of i k'] by metis
  ultimately show False using of k k' unfolding overlap_free_def by blast
qed

lemma replace_words_covers:
  fixes g :: "char \<Rightarrow> char"
  assumes uw: "upper_words ks" and of: "overlap_free ks"
    and k: "toUpperCase w \<in> set ks"
    and b2: "word_boundary (Some (last w)) ys"
  shows "word_boundary (last_before prev xs) (w @ ys) \<Longrightarrow>
     take (length w) (drop (length xs) (replace_all (re_words ks) (map g) prev (xs @ w @ ys)))
       = map g w"
proof (induction "length xs" arbitrary: xs prev rule: less_induct)
  case less
  let ?R = "replace_all (re_words ks) (map g)"
  let ?s = "xs @ w @ ys"
  have wne: "w \<noteq> []"
    using uw k unfolding upper_words_def toUpperCase_def by fastforce
  then obtain c cs where s: "?s = c # cs" by (cases ?s) auto
  show ?case
  proof (cases "\<exists>n. re_words ks prev ?s = Some n \<and> n > 0")
    case False
    then have R: "?R prev ?s = c # ?R (Some c) cs"
      unfolding s by (rule replace_all_no_match)
    show ?thesis
    proof (cases xs)
      case Nil
      with less.prems have wb: "word_boundary prev ?s" by (simp add: last_before_def)
      have "match_ci (toUpperCase w) prev ?s"
        unfolding match_ci_iff using Nil wne b2
        by (intro exI[of _ w] exI[of _ ys]) (simp add: toUpperCase_idem length_toUpperCase last_before_def)
      with wb k have "re_words ks prev ?s \<noteq> None"
        using re_words_None by blast
      then obtain n where n: "re_words ks prev ?s = Some n" by blast
      then obtain k' where "k' \<in> set ks" "n = length k'" using re_words_Some by blast
      with uw have "n > 0" unfolding upper_words_def by auto
      with n False show ?thesis by blast
    next
      case (Cons x xs')
      with s have x: "x = c" and cs: "cs = xs' @ w @ ys" by auto
      have lb: "last_before (Some c) xs' = last_before prev xs"
        using Cons x by (simp add: last_before_def)
      have "take (length w) (drop (length xs') (?R (Some c) (xs' @ w @ ys))) = map g w"
        using less.hyps[of xs' "Some c"] less.prems Cons lb by simp
      then show ?thesis
        using R Cons cs by simp
    qed
  next
    case True
    then obtain n where m: "re_words ks prev ?s = Some n" and npos: "n > 0" by blast
    then obtain k' where k': "k' \<in> set ks" "n = length k'" "match_ci k' prev ?s"
      using re_words_Some by blast
    then obtain w' r where w': "?s = w' @ r" "length w' = length k'"
      "toUpperCase w' = toUpperCase k'" "word_boundary (last_before prev w') r"
      unfolding match_ci_iff by blast
    have w'ne: "w' \<noteq> []" using w'(2) k'(2) npos by auto
    have uk': "toUpperCase k' = k'" using uw k' unfolding upper_words_def by blast
    have "re_words ks prev (w' @ r) = Some (length w')"
      using m w' k' by simp
    then have R: "?R prev ?s = map g w' @ ?R (Some (last w')) r"
      unfolding w'(1) using w'ne by (rule replace_all_match)
    have wb': "word_boundary (Some (last w')) r"
      using w'(4) w'ne by (simp add: last_before_def)
    show ?thesis
    proof (cases "n \<le> length xs")
      case True
      have "take n ?s = w'" using w' k' by simp
      then have tx: "take n xs = w'" using True by simp
      define xs'' where "xs'' = drop n xs"
      have xs: "xs = w' @ xs''" using tx xs''_def by (metis append_take_drop_id)
      then have r: "r = xs'' @ w @ ys" using w'(1) by simp
      have lb: "last_before (Some (last w')) xs'' = last_before prev xs"
        using xs w'ne by (simp add: last_before_def)
      have "length xs'' < length xs" using xs w'ne by simp
      then have "take (length w) (drop (length xs'') (?R (Some (last w')) (xs'' @ w @ ys))) = map g w"
        using less.hyps[of xs'' "Some (last w')"] less.prems lb by simp
      then show ?thesis
        using R r xs w'(2) by simp
    next
      case False
      then have i: "length xs < length k'" using k' by simp
      have fit: "length xs + length w \<le> n"
      proof (rule ccontr)
        assume "\<not> length xs + length w \<le> n"
        then have j: "length k' - length xs < length (toUpperCase w)"
          using k'(2) i unfolding length_toUpperCase by linarith
        let ?j = "length k' - length xs"
        have "drop (length xs) w' = take ?j (w @ ys)"
          using w'(1,2) by (metis append_eq_conv_conj drop_take)
        then have dw: "drop (length xs) w' = take ?j w"
          using j by (simp add: length_toUpperCase)
        have "drop (length xs) k' = drop (length xs) (toUpperCase w')"
          using w'(3) uk' by simp
        also have "\<dots> = toUpperCase (drop (length xs) w')"
          by (simp add: toUpperCase_def drop_map)
        also have "\<dots> = take ?j (toUpperCase w)"
          using dw by (simp add: toUpperCase_def take_map)
        finally have eq: "drop (length xs) k' = take ?j (toUpperCase w)" .
        have jpos: "0 < ?j" using i by simp
        have jw: "?j < length w" using j by (simp add: length_toUpperCase)
        have "r = drop (length w') ?s" using w'(1) by simp
        then have rr: "r = drop ?j w @ ys"
          using w'(2) i jw by simp
        have lw: "last w' = w ! (?j - 1)"
        proof -
          have "last w' = last (drop (length xs) w')"
            using i w'(2) by simp
          also have "\<dots> = last (take ?j w)" using dw by simp
          also have "\<dots> = take ?j w ! (length (take ?j w) - 1)"
            using jpos jw by (intro last_conv_nth) auto
          also have "\<dots> = w ! (?j - 1)"
            using jpos jw by simp
          finally show ?thesis .
        qed
        have "drop ?j w = w ! ?j # drop (Suc ?j) w"
          using jw by (simp add: Cons_nth_drop_Suc)
        with wb' rr lw have "is_word (w ! (?j - 1)) \<noteq> is_word (w ! ?j)"
          by (simp add: word_boundary_Some_Cons)
        then have b: "is_word (toUpperCase w ! (?j - 1)) \<noteq> is_word (toUpperCase w ! ?j)"
          using jw jpos by (simp add: toUpperCase_def is_word_upper)
        show False
          using overlap_contra[OF of k k'(1) i j eq] b by simp
      qed
      define zs where "zs = drop (length xs + length w) w'"
      have "take (length xs + length w) ?s = take (length xs + length w) w'"
        using w'(1,2) fit k'(2) by simp
      then have "xs @ w = take (length xs + length w) w'" by simp
      then have wz: "w' = xs @ w @ zs"
        unfolding zs_def by (metis append.assoc append_take_drop_id)
      show ?thesis
        unfolding R wz by simp
    qed
  qed
qed

lemma keywords_upper: "upper_words keywords_list"
  by code_simp

lemma keywords_overlap_free: "overlap_free keywords_list"
  by code_simp

lemma on_upper: "upper_words [''ON'']"
  by code_simp

lemma on_overlap_free: "overlap_free [''ON'']"
  by code_simp

lemma keyword_slice:
  assumes "keyword_at xs w ys"
  shows "take (length w) (drop (length xs)
           (replace_all keywordRegex (map g) None (xs @ w @ ys))) = map g w"
  unfolding keywordRegex_def
  using assms keywords_upper keywords_overlap_free
  unfolding keyword_at_def whole_word_def
  by (intro replace_words_covers) auto

lemma re_on_take:
  assumes "re_on prev s = Some n" "n > 0"
  shows "toUpperCase (take n s) = ''ON''"
proof -
  from assms(1) obtain k where k: "k \<in> set [''ON'']" "n = length k" "match_ci k prev s"
    unfolding re_on_def using re_words_Some by blast
  then obtain w r where "s = w @ r" "length w = length k" "toUpperCase w = toUpperCase k"
    unfolding match_ci_iff by blast
  with k show ?thesis by (simp add: toUpperCase_def to_upper_bits letter_bits_def)
qed

lemma fix_on_as_map:
  "replace_all re_on (\<lambda>_. onKeyword opts) None s
     = replace_all re_on (map (if keywordCase opts = Some ''lower'' then to_lower else to_upper)) None s"
proof (rule replace_all_cong)
  fix prev s n
  assume "re_on prev s = Some n" "0 < n"
  then have u: "toUpperCase (take n s) = ''ON''" by (rule re_on_take)
  then have "toLowerCase (take n s) = ''on''" by (rule upper_ON)
  with u show "onKeyword opts = map (if keywordCase opts = Some ''lower'' then to_lower else to_upper) (take n s)"
    by (simp add: onKeyword_def toUpperCase_def toLowerCase_def)
qed



lemma replace_all_id:
  "(\<And>a b n. s = a @ b \<Longrightarrow> m (last_before prev a) b = Some n \<Longrightarrow> n > 0 \<Longrightarrow> f (take n b) = take n b)
   \<Longrightarrow> replace_all m f prev s = s"
proof (induction "length s" arbitrary: s prev rule: less_induct)
  case less
  show ?case
  proof (cases s)
    case Nil
    then show ?thesis by simp
  next
    case (Cons c cs)
    show ?thesis
    proof (cases "\<exists>n. m prev (c # cs) = Some n \<and> n > 0")
      case False
      then have R: "replace_all m f prev (c # cs) = c # replace_all m f (Some c) cs"
        by (rule replace_all_no_match)
      have "replace_all m f (Some c) cs = cs"
      proof (rule less.hyps)
        show "length cs < length s" using Cons by simp
      next
        fix a b n
        assume h: "cs = a @ b" "m (last_before (Some c) a) b = Some n" "0 < n"
        have "last_before prev (c # a) = last_before (Some c) a" by (simp add: last_before_def)
        with less.prems[of "c # a" b n] h Cons show "f (take n b) = take n b" by simp
      qed
      with R Cons show ?thesis by simp
    next
      case True
      then obtain n where n: "m prev (c # cs) = Some n" "n > 0" by blast
      let ?w = "take n (c # cs)" and ?r = "drop n (c # cs)"
      have wne: "?w \<noteq> []" using n(2) by simp
      have fw: "f ?w = ?w"
        using less.prems[of "[]" s n] n Cons by (simp add: last_before_def)
      have "replace_all m f (Some (last ?w)) ?r = ?r"
      proof (rule less.hyps)
        show "length ?r < length s" using Cons n by simp
      next
        fix a b k
        assume h: "?r = a @ b" "m (last_before (Some (last ?w)) a) b = Some k" "0 < k"
        have "last_before prev (?w @ a) = last_before (Some (last ?w)) a"
          using wne by (simp add: last_before_def del: take.simps)
        moreover have "s = (?w @ a) @ b" using h(1) Cons
          by (metis append.assoc append_take_drop_id)
        ultimately show "f (take k b) = take k b" using less.prems[of "?w @ a" b k] h by simp
      qed
      then show ?thesis using n fw Cons by (simp del: take.simps drop.simps)
    qed
  qed
qed

lemma replace_all_filter:
  assumes "\<And>prev s n. m prev s = Some n \<Longrightarrow> n > 0 \<Longrightarrow> filter P (f (take n s)) = filter P (take n s)"
  shows "filter P (replace_all m f prev s) = filter P s"
proof (induction "length s" arbitrary: s prev rule: less_induct)
  case less
  show ?case
  proof (cases s)
    case Nil
    then show ?thesis by simp
  next
    case (Cons c cs)
    show ?thesis
    proof (cases "\<exists>n. m prev (c # cs) = Some n \<and> n > 0")
      case False
      then have "replace_all m f prev (c # cs) = c # replace_all m f (Some c) cs"
        by (rule replace_all_no_match)
      with less[of cs "Some c"] Cons show ?thesis by simp
    next
      case True
      then obtain n where n: "m prev (c # cs) = Some n" "n > 0" by blast
      let ?w = "take n (c # cs)" and ?r = "drop n (c # cs)"
      have R: "replace_all m f prev (c # cs) = f ?w @ replace_all m f (Some (last ?w)) ?r"
        using n by (simp del: take.simps drop.simps)
      have "length ?r < length s" using n Cons by simp
      then have ih: "filter P (replace_all m f (Some (last ?w)) ?r) = filter P ?r" by (rule less)
      have "filter P (f ?w) = filter P ?w" by (rule assms[OF n])
      with ih have "filter P (replace_all m f prev (c # cs)) = filter P ?w @ filter P ?r"
        unfolding R by (simp del: take.simps drop.simps)
      also have "\<dots> = filter P (?w @ ?r)" by (simp only: filter_append)
      also have "?w @ ?r = c # cs" by (rule append_take_drop_id)
      finally show ?thesis using Cons by simp
    qed
  qed
qed

subsection \<open>The comma step\<close>


lemma re_around_space_head:
  assumes "is_space c" "re_around x prev (c # cs) = None"
  shows "re_around x prev' cs = None"
proof (cases "dropWhile is_space cs")
  case Nil
  show ?thesis unfolding re_around_def Nil by simp
next
  case (Cons d r)
  have dw: "dropWhile is_space (c # cs) = d # r" using assms(1) Cons by simp
  have "d \<noteq> x"
    using assms(2) unfolding re_around_def dw by (simp split: if_splits)
  then show ?thesis unfolding re_around_def Cons by simp
qed

lemma re_around_pos: "re_around x prev s = Some n \<Longrightarrow> n > 0"
  by (auto simp: re_around_def split: list.splits if_splits)



subsection \<open>Normalization changes white space only\<close>

lemma blank_takeWhile: "blank (takeWhile is_space s)"
  unfolding blank_def by (auto dest: set_takeWhileD)

lemma re_spaces_Some:
  assumes "re_spaces prev s = Some n"
  shows "n > 0 \<and> n \<le> length s \<and> blank (take n s) \<and> (drop n s = [] \<or> \<not> is_space (hd (drop n s)))"
proof -
  let ?w = "takeWhile is_space s"
  from assms have n: "n = length ?w" "n \<noteq> 0"
    by (auto simp: re_spaces_def Let_def split: if_splits)
  have t: "take n s = ?w" unfolding n(1) by (metis append_eq_conv_conj takeWhile_dropWhile_id)
  have d: "drop n s = dropWhile is_space s" unfolding n(1) by (metis append_eq_conv_conj takeWhile_dropWhile_id)
  have "blank ?w" unfolding blank_def by (auto dest: set_takeWhileD)
  moreover have "dropWhile is_space s = [] \<or> \<not> is_space (hd (dropWhile is_space s))"
    using hd_dropWhile by blast
  moreover have "n \<le> length s" unfolding n(1) by (rule length_takeWhile_le)
  ultimately show ?thesis using n t d by simp
qed

lemma re_around_Some:
  assumes "re_around x p s = Some n"
  shows "\<exists>sp1 sp2 r. s = sp1 @ x # sp2 @ r \<and> blank sp1 \<and> blank sp2
           \<and> (r = [] \<or> \<not> is_space (hd r)) \<and> n = length (sp1 @ x # sp2)"
proof -
  from assms obtain r0 where d: "dropWhile is_space s = x # r0"
    and n: "n = length (takeWhile is_space s) + 1 + length (takeWhile is_space r0)"
    by (auto simp: re_around_def split: list.splits if_splits)
  let ?sp1 = "takeWhile is_space s" and ?sp2 = "takeWhile is_space r0"
  let ?r = "dropWhile is_space r0"
  have "s = ?sp1 @ x # ?sp2 @ ?r"
    using d by (metis takeWhile_dropWhile_id)
  moreover have "?r = [] \<or> \<not> is_space (hd ?r)" using hd_dropWhile by blast
  ultimately show ?thesis using n blank_takeWhile
    by (intro exI[of _ ?sp1] exI[of _ ?sp2] exI[of _ ?r]) auto
qed

lemma re_call_Some:
  assumes "re_call p b = Some n"
  shows "\<exists>w sp r. b = w @ sp @ CHR ''('' # r \<and> w \<noteq> [] \<and> (\<forall>c\<in>set w. is_word c) \<and> blank sp
           \<and> n = length w + length sp + 1"
proof -
  let ?w = "takeWhile is_word b" and ?r = "dropWhile is_word b"
  from assms have wne: "?w \<noteq> []"
    by (auto simp: re_call_def Let_def split: if_splits)
  from assms wne obtain r0 where d: "dropWhile is_space ?r = CHR ''('' # r0"
    and n: "n = length ?w + length (takeWhile is_space ?r) + 1"
    by (auto simp: re_call_def Let_def split: if_splits list.splits)
  have "b = ?w @ takeWhile is_space ?r @ CHR ''('' # r0"
    using d by (metis takeWhile_dropWhile_id)
  moreover have "\<forall>c\<in>set ?w. is_word c" by (auto dest: set_takeWhileD)
  ultimately show ?thesis using wne n blank_takeWhile by blast
qed

lemma non_space_blank: "blank w \<Longrightarrow> non_space w = []"
  by (induction w) (auto simp: blank_def non_space_def)

lemma non_space_append: "non_space (a @ b) = non_space a @ non_space b"
  by (simp add: non_space_def)

lemma non_space_Cons: "non_space (c # s) = (if is_space c then non_space s else c # non_space s)"
  by (simp add: non_space_def)

lemma non_space_collapse: "non_space (replace_all re_spaces (\<lambda>_. '' '') prev s) = non_space s"
  unfolding non_space_def
proof (rule replace_all_filter)
  fix prev s n
  assume "re_spaces prev s = Some n" "0 < n"
  from re_spaces_Some[OF this(1)] have "blank (take n s)" by simp
  from non_space_blank[OF this]
  show "filter (\<lambda>c. \<not> is_space c) '' '' = filter (\<lambda>c. \<not> is_space c) (take n s)"
    by (simp add: non_space_def blank_space)
qed

lemma non_space_dropWhile: "non_space (dropWhile is_space s) = non_space s"
  by (induction s) (auto simp: non_space_def)

lemma non_space_rev: "non_space (rev s) = rev (non_space s)"
  by (simp add: non_space_def rev_filter)

lemma non_space_trim: "non_space (trim s) = non_space s"
  by (simp add: trim_def non_space_rev non_space_dropWhile)

lemma non_space_operators: "non_space (space_operators s) = non_space s"
  unfolding non_space_def space_operators_def
  by (rule replace_all_filter) (simp add: blank_space)

lemma non_space_around:
  assumes x: "\<not> is_space x" and r: "non_space rep = [x]"
  shows "non_space (replace_all (re_around x) (\<lambda>_. rep) prev s) = non_space s"
  unfolding non_space_def
proof (rule replace_all_filter)
  fix prev s n
  assume "re_around x prev s = Some n" "0 < n"
  from re_around_Some[OF this(1)] obtain sp1 sp2 r where
    s: "s = sp1 @ x # sp2 @ r" "blank sp1" "blank sp2" "n = length (sp1 @ x # sp2)" by blast
  have "take n s = sp1 @ x # sp2" using s(1,4) by simp
  then have "non_space (take n s) = [x]"
    using x s(2,3) by (simp add: non_space_append non_space_Cons non_space_blank)
  with r show "filter (\<lambda>c. \<not> is_space c) rep = filter (\<lambda>c. \<not> is_space c) (take n s)"
    by (simp add: non_space_def)
qed

lemma non_space_commas: "non_space (space_commas opts s) = non_space s"
  unfolding space_commas_def
  by (rule non_space_around[OF comma_not_space])
     (simp add: comma_separator_def non_space_def comma_not_space blank_space)

lemma non_space_open: "non_space (open_parens s) = non_space s"
  unfolding open_parens_def
  by (rule non_space_around[OF paren_not_space(1)]) (simp add: non_space_def paren_not_space)

lemma non_space_close: "non_space (close_parens s) = non_space s"
  unfolding close_parens_def
  by (rule non_space_around[OF paren_not_space(2)])
     (simp add: non_space_def paren_not_space blank_space)

lemma takeWhile_word_call:
  assumes "\<forall>c\<in>set w. is_word c" "blank sp"
  shows "takeWhile is_word (w @ sp @ ''('') = w"
proof -
  have "\<And>c. c \<in> set sp \<Longrightarrow> \<not> is_word c"
    using assms(2) word_not_space by (auto simp: blank_def)
  then have "takeWhile is_word (sp @ ''('') = []"
    using word_not_paren[of "CHR ''(''"] by (cases sp) auto
  with assms(1) show ?thesis by (simp add: takeWhile_append2)
qed

lemma non_space_calls: "non_space (function_calls s) = non_space s"
  unfolding non_space_def function_calls_def
proof (rule replace_all_filter)
  fix prev s n
  assume "re_call prev s = Some n" "0 < n"
  from re_call_Some[OF this(1)] obtain w sp r where
    b: "s = w @ sp @ CHR ''('' # r" and ww: "\<forall>c\<in>set w. is_word c"
    and bs: "blank sp" and n: "n = length w + length sp + 1" by blast
  have t: "take n s = w @ sp @ ''(''" unfolding b n by simp
  have "non_space (call_replacement (take n s)) = non_space (w @ ''('')"
    unfolding t call_replacement_def takeWhile_word_call[OF ww bs] ..
  also have "\<dots> = non_space (take n s)"
    unfolding t using bs by (simp add: non_space_append non_space_blank)
  finally show "filter (\<lambda>c. \<not> is_space c) (call_replacement (take n s))
      = filter (\<lambda>c. \<not> is_space c) (take n s)" by (simp add: non_space_def)
qed

lemma non_space_normalize: "non_space (normalize opts sql) = non_space sql"
  unfolding normalize_def non_space_calls collapse_spaces_def non_space_collapse
    non_space_close non_space_open non_space_commas non_space_operators
    normalize_whitespace_def non_space_trim non_space_collapse ..

subsection \<open>Without parentheses, the comma rendering reaches the normalized output\<close>














subsection \<open>The options that are read, the loops, blank input\<close>

lemma format_cong:
  assumes c: "comma_separator o1 = comma_separator o2"
    and k: "\<And>s. keyword_case o1 s = keyword_case o2 s"
    and n: "onKeyword o1 = onKeyword o2"
  shows "formatSqlString sql o1 = formatSqlString sql o2"
proof -
  have 1: "normalize o1 sql = normalize o2 sql"
    unfolding normalize_def space_commas_def c ..
  have "fix_on o1 = fix_on o2"
    unfolding fix_on_def[abs_def] n ..
  then have 2: "assemble o1 = assemble o2"
    unfolding assemble_def[abs_def] by simp
  show ?thesis
    unfolding formatSqlString_def 1 2 k ..
qed

lemma join_body_ok:
  assumes "i < length joinParts"
  shows "\<exists>st'. join_body joinParts i st = Inr st'"
  using assms by (auto simp: join_body_def at_index_def Let_def)

lemma join_loop_ok: "\<exists>st'. join_loop joinParts i st = Inr st'"
proof (induction joinParts i st rule: join_loop.induct)
  case (1 joinParts i st)
  show ?case
  proof (cases "i < length joinParts")
    case True
    then obtain st' where b: "join_body joinParts i st = Inr st'"
      using join_body_ok by blast
    with True 1[OF True b] show ?thesis by (simp add: join_loop.simps[of joinParts i])
  next
    case False
    then show ?thesis by (simp add: join_loop.simps[of joinParts i])
  qed
qed

lemma main_body_ok: "\<exists>st'. main_body part st = Inr st'"
  by (simp add: main_body_def join_loop_ok)

lemma main_loop_ok: "\<exists>st'. main_loop parts st = Inr st'"
proof (induction parts arbitrary: st)
  case Nil
  then show ?case by simp
next
  case (Cons part parts)
  obtain st' where "main_body part st = Inr st'" using main_body_ok by blast
  with Cons[of st'] show ?case by simp
qed

lemma segment_ok: "\<exists>clauses. segment s = Inr clauses"
proof -
  obtain st where "main_loop (split_re re_main s) \<lparr> result = [], currentPart = [] \<rparr> = Inr st"
    using main_loop_ok by blast
  then show ?thesis by (simp add: segment_def)
qed

lemma blank_replace:
  assumes "\<forall>c\<in>set s. is_space c" "s \<noteq> []"
  shows "replace_all re_spaces (\<lambda>_. '' '') prev s = '' ''"
proof -
  have tw: "takeWhile is_space s = s" using assms(1) by (simp add: takeWhile_eq_all_conv)
  have "re_spaces prev (s @ []) = Some (length s)"
    unfolding re_spaces_def Let_def append_Nil2 tw using assms(2) by simp
  then have "replace_all re_spaces (\<lambda>_. '' '') prev (s @ [])
               = '' '' @ replace_all re_spaces (\<lambda>_. '' '') (Some (last s)) []"
    using assms(2) by (rule replace_all_match[of re_spaces prev s "[]"])
  then show ?thesis by simp
qed

lemma normalize_whitespace_blank:
  assumes "\<forall>c\<in>set s. is_space c"
  shows "normalize_whitespace s = []"
proof (cases "s = []")
  case True
  then show ?thesis by (simp add: normalize_whitespace_def trim_def)
next
  case False
  have "is_space CHR '' ''" by code_simp
  with blank_replace[OF assms False] show ?thesis
    by (simp add: normalize_whitespace_def trim_def)
qed

lemma format_of_empty_normal:
  assumes "normalize_whitespace sql = []"
  shows "formatSqlString sql opts = Inr []"
  using assms
  by (simp add: formatSqlString_def normalize_def space_operators_def space_commas_def
      open_parens_def close_parens_def collapse_spaces_def function_calls_def keyword_case_def
      segment_def split_re_def main_body_def trim_def push_current_def assemble_def)

section \<open>Formatting twice\<close>

subsection \<open>The skeleton of a string: its code units that are not white space, each with the flag "white space before it"\<close>

lemma skel_append: "skel b (s @ t) = skel b s @ skel (pend b s) t"
  by (induction s arbitrary: b) auto

lemma pend_append: "pend b (s @ t) = pend (pend b s) t"
  by (induction s arbitrary: b) auto

lemma skel_blank: "blank s \<Longrightarrow> skel b s = []"
  by (induction s arbitrary: b) (auto simp: blank_def)

lemma pend_blank: "blank s \<Longrightarrow> pend b s = (b \<or> s \<noteq> [])"
  by (induction s arbitrary: b) (auto simp: blank_def)

lemma respace_append:
  "respace R q (xs @ ys) = respace R q xs @ respace R (lastc q xs) ys"
  by (induction xs arbitrary: q) auto

lemma lastc_append: "lastc q (xs @ ys) = lastc (lastc q xs) ys"
  by (induction xs arbitrary: q) auto

lemma lastc_respace: "lastc q (respace R q xs) = lastc q xs"
  by (induction xs arbitrary: q) auto

lemma respace_respace:
  "respace R2 q (respace R1 q xs) = respace (\<lambda>q c b. R2 q c (R1 q c b)) q xs"
  by (induction xs arbitrary: q) auto

lemma map_snd_respace: "map snd (respace R q xs) = map snd xs"
  by (induction xs arbitrary: q) auto

lemma skel_nonspace: "(b', c) \<in> set (skel b s) \<Longrightarrow> \<not> is_space c"
  by (induction s arbitrary: b) (auto split: if_splits)

lemma tidy_rend_skel:
  "tidy b s \<Longrightarrow> rend (skel b s) @ (if pend b s then '' '' else []) = (if b then '' '' else []) @ s"
proof (induction s arbitrary: b)
  case Nil
  then show ?case by simp
next
  case (Cons c cs)
  show ?case
  proof (cases "is_space c")
    case True
    with Cons.prems have c: "c = CHR '' ''" "\<not> b" "tidy True cs" by auto
    from Cons.IH[OF c(3)] True c show ?thesis by simp
  next
    case False
    with Cons.prems have "tidy False cs" by simp
    from Cons.IH[OF this] False show ?thesis by simp
  qed
qed

lemma tidy_rend: "tidy False s \<Longrightarrow> s = rend (skel False s) @ (if pend False s then '' '' else [])"
  using tidy_rend_skel[of False s] by simp

lemma re_spaces_None:
  assumes "\<not> (\<exists>n. re_spaces prev (c # cs) = Some n \<and> n > 0)"
  shows "\<not> is_space c"
  using assms by (auto simp: re_spaces_def Let_def)

lemma collapse_skel:
  "skel b (replace_all re_spaces (\<lambda>_. '' '') prev s) = skel b s
   \<and> pend b (replace_all re_spaces (\<lambda>_. '' '') prev s) = pend b s
   \<and> (s = [] \<or> \<not> is_space (hd s) \<or> \<not> t \<longrightarrow> tidy t (replace_all re_spaces (\<lambda>_. '' '') prev s))"
proof (induction "length s" arbitrary: s b t prev rule: less_induct)
  case less
  let ?R = "replace_all re_spaces (\<lambda>_. '' '')"
  show ?case
  proof (cases s)
    case Nil
    then show ?thesis by simp
  next
    case (Cons c cs)
    show ?thesis
    proof (cases "\<exists>n. re_spaces prev (c # cs) = Some n \<and> n > 0")
      case False
      then have R: "?R prev (c # cs) = c # ?R (Some c) cs"
        by (rule replace_all_no_match)
      have c: "\<not> is_space c" using False by (rule re_spaces_None)
      have "length cs < length s" using Cons by simp
      from less.hyps[OF this, where b=False and t=False and prev="Some c"] c show ?thesis
        unfolding Cons R by simp
    next
      case True
      then obtain n where n: "re_spaces prev (c # cs) = Some n" "n > 0" by blast
      let ?w = "take n (c # cs)" and ?r = "drop n (c # cs)"
      from re_spaces_Some[OF n(1)] have w: "blank ?w" "n \<le> length (c # cs)"
        and r: "?r = [] \<or> \<not> is_space (hd ?r)" by auto
      have wne: "?w \<noteq> []" using n(2) by simp
      have R: "?R prev (c # cs) = '' '' @ ?R (Some (last ?w)) ?r"
        using n by (simp del: take.simps drop.simps)
      note sp = blank_space
      have c: "is_space c" using w(1) n(2) by (cases n) (auto simp: blank_def)
      have "length ?r < length s" using n Cons by simp
      from less.hyps[OF this, where b=True and t=True and prev="Some (last ?w)"] r
      have ih: "skel True (?R (Some (last ?w)) ?r) = skel True ?r"
        "pend True (?R (Some (last ?w)) ?r) = pend True ?r"
        "tidy True (?R (Some (last ?w)) ?r)" by auto
      have "skel b (c # cs) = skel b (?w @ ?r)" by (simp del: take.simps drop.simps)
      also have "\<dots> = skel True ?r"
        unfolding skel_append using w(1) wne by (simp add: skel_blank pend_blank del: take.simps drop.simps)
      finally have 1: "skel b (c # cs) = skel True ?r" .
      have "pend b (c # cs) = pend b (?w @ ?r)" by (simp del: take.simps drop.simps)
      also have "\<dots> = pend True ?r"
        unfolding pend_append using w(1) wne by (simp add: pend_blank del: take.simps drop.simps)
      finally have 2: "pend b (c # cs) = pend True ?r" .
      show ?thesis
        unfolding Cons R 1 2 using ih sp c by (simp del: take.simps drop.simps)
    qed
  qed
qed

lemma nsl_skel: "nsl (skel b s)"
  unfolding nsl_def using skel_nonspace by fastforce

lemma nsl_Cons: "nsl ((b, c) # xs) \<longleftrightarrow> \<not> is_space c \<and> nsl xs"
  by (auto simp: nsl_def)

lemma nsl_respace: "nsl (respace R q xs) = nsl xs"
  by (simp add: nsl_def map_snd_respace)

lemma rend_last: "nsl xs \<Longrightarrow> xs \<noteq> [] \<Longrightarrow> rend xs \<noteq> [] \<and> \<not> is_space (last (rend xs))"
proof (induction xs)
  case Nil
  then show ?case by simp
next
  case (Cons x xs)
  obtain b c where x: "x = (b, c)" by (cases x)
  show ?case
  proof (cases "xs = []")
    case True
    with Cons.prems x show ?thesis by (auto simp: nsl_def)
  next
    case False
    with Cons x show ?thesis by (auto simp: nsl_Cons)
  qed
qed

lemma respace_unlead_Some: "respace unlead (Some p) xs = xs"
  by (induction xs arbitrary: p) (auto simp: unlead_def)

lemma trim_rend:
  assumes "nsl xs"
  shows "trim (rend xs @ (if e then '' '' else [])) = rend (respace unlead None xs)"
proof (cases xs)
  case Nil
  then show ?thesis by (simp add: trim_def blank_space)
next
  case (Cons x xs')
  obtain b c where x: "x = (b, c)" by (cases x)
  from assms Cons x have c: "\<not> is_space c" and n: "nsl xs'" by (auto simp: nsl_Cons)
  let ?t = "c # rend xs'"
  have 1: "dropWhile is_space (rend xs @ (if e then '' '' else [])) = ?t @ (if e then '' '' else [])"
    unfolding Cons x using c by (simp add: blank_space)
  have l: "\<not> is_space (last ?t)"
    using rend_last[OF n] c by (cases "xs' = []") auto
  have "rev (?t @ (if e then '' '' else [])) = (if e then '' '' else []) @ rev ?t" by simp
  moreover have "dropWhile is_space ((if e then '' '' else []) @ rev ?t) = rev ?t"
  proof -
    obtain a l' where r: "rev ?t = a # l'" by (cases "rev ?t") auto
    then have "a = last ?t" by (metis hd_rev list.sel(1))
    with l have "\<not> is_space a" by simp
    then show ?thesis unfolding r by (simp add: blank_space)
  qed
  ultimately have "trim (rend xs @ (if e then '' '' else [])) = ?t"
    unfolding trim_def 1 by (simp del: rev.simps rev_append)
  then show ?thesis unfolding Cons x by (simp add: unlead_def respace_unlead_Some)
qed

lemma normalize_whitespace_skel:
  "normalize_whitespace s = rend (respace unlead None (skel False s))"
proof -
  let ?u = "replace_all re_spaces (\<lambda>_. '' '') None s"
  from collapse_skel[of False None s False]
  have u: "skel False ?u = skel False s" "pend False ?u = pend False s" "tidy False ?u" by auto
  have "?u = rend (skel False s) @ (if pend False s then '' '' else [])"
    using tidy_rend[OF u(3)] u by simp
  then show ?thesis
    unfolding normalize_whitespace_def using trim_rend[OF nsl_skel] by simp
qed

subsection \<open>The operator rule on the skeleton\<close>

lemma operator_not_space: "is_operator c \<Longrightarrow> \<not> is_space c"
  unfolding is_operator_def by (elim disjE; hypsubst; code_simp)

lemma skel_nospace:
  assumes "\<forall>c\<in>set w. \<not> is_space c"
  shows "skel b w = (case w of [] \<Rightarrow> [] | c # w' \<Rightarrow> (b, c) # map (Pair False) w')"
    and "pend b w = (if w = [] then b else False)"
  using assms by (induction w arbitrary: b) (auto split: list.splits)

lemma respace_run:
  assumes "\<forall>c\<in>set w. is_operator c" "is_operator p"
  shows "respace Rop (Some p) (map (Pair False) w) = map (Pair False) w
         \<and> isopq (lastc (Some p) (map (Pair False) w))"
  using assms by (induction w arbitrary: p) (auto simp: Rop_def isopq_def)

lemma re_operators_Some:
  assumes "re_operators prev s = Some n"
  shows "n > 0 \<and> take n s = takeWhile is_operator s \<and> drop n s = dropWhile is_operator s
    \<and> n = length (takeWhile is_operator s)"
proof -
  from assms have n: "n = length (takeWhile is_operator s)" "n \<noteq> 0"
    by (auto simp: re_operators_def Let_def split: if_splits)
  have "take n s = takeWhile is_operator s" "drop n s = dropWhile is_operator s"
    unfolding n(1) by (metis append_eq_conv_conj takeWhile_dropWhile_id)+
  then show ?thesis using n by simp
qed

lemma re_operators_None:
  assumes "\<not> (\<exists>n. re_operators prev (c # cs) = Some n \<and> n > 0)"
  shows "\<not> is_operator c"
  using assms by (auto simp: re_operators_def Let_def)

lemma op_skel:
  "bo = (bi \<or> isopq q) \<Longrightarrow> (isopq q \<and> \<not> bi \<longrightarrow> s = [] \<or> \<not> is_operator (hd s)) \<Longrightarrow>
   skel bo (replace_all re_operators (\<lambda>mt. '' '' @ mt @ '' '') prev s) = respace Rop q (skel bi s)
   \<and> pend bo (replace_all re_operators (\<lambda>mt. '' '' @ mt @ '' '') prev s)
       = Eop (lastc q (skel bi s)) (pend bi s)"
proof (induction "length s" arbitrary: s bo bi q prev rule: less_induct)
  case less
  let ?R = "replace_all re_operators (\<lambda>mt. '' '' @ mt @ '' '')"
  show ?case
  proof (cases s)
    case Nil
    with less.prems show ?thesis by (auto simp: Eop_def)
  next
    case (Cons c cs)
    show ?thesis
    proof (cases "\<exists>n. re_operators prev (c # cs) = Some n \<and> n > 0")
      case False
      then have R: "?R prev (c # cs) = c # ?R (Some c) cs"
        by (rule replace_all_no_match)
      have c: "\<not> is_operator c" using False by (rule re_operators_None)
      have len: "length cs < length s" using Cons by simp
      show ?thesis
      proof (cases "is_space c")
        case True
        have "skel True (?R (Some c) cs) = respace Rop q (skel True cs)
          \<and> pend True (?R (Some c) cs) = Eop (lastc q (skel True cs)) (pend True cs)"
          by (rule less.hyps[OF len]) auto
        with True show ?thesis unfolding Cons R by simp
      next
        case sp: False
        have "skel False (?R (Some c) cs) = respace Rop (Some c) (skel False cs)
          \<and> pend False (?R (Some c) cs) = Eop (lastc (Some c) (skel False cs)) (pend False cs)"
          by (rule less.hyps[OF len]) (auto simp: isopq_def c)
        moreover have "Rop q c bi = bo" using less.prems(1) c by (auto simp: Rop_def)
        ultimately show ?thesis using sp unfolding Cons R by simp
      qed
    next
      case True
      then obtain n where n: "re_operators prev (c # cs) = Some n" "n > 0" by blast
      define w where "w = takeWhile is_operator (c # cs)"
      define r where "r = dropWhile is_operator (c # cs)"
      from re_operators_Some[OF n(1)]
      have t: "take n (c # cs) = w" and d: "drop n (c # cs) = r" and nl: "n = length w"
        by (auto simp: w_def r_def)
      have s: "c # cs = w @ r" unfolding w_def r_def by simp
      have wops: "\<forall>x\<in>set w. is_operator x" unfolding w_def by (auto dest: set_takeWhileD)
      have wne: "w \<noteq> []" using t n(2) by auto
      then obtain w' where w: "w = c # w'" using s by (cases w) auto
      have cop: "is_operator c" using wops w by simp
      have w'ops: "\<forall>x\<in>set w'. is_operator x" using wops w by simp
      have r: "r = [] \<or> \<not> is_operator (hd r)" unfolding r_def using hd_dropWhile by blast
      have "re_operators prev (w @ r) = Some (length w)" using n(1) s nl by simp
      then have R: "?R prev (w @ r) = ('' '' @ w @ '' '') @ ?R (Some (last w)) r"
        using wne by (rule replace_all_match)
      have len: "length r < length s" unfolding Cons s using wne by simp
      let ?p = "last w"
      have lp: "is_operator ?p" using wops wne by simp
      have ih: "skel True (?R (Some ?p) r) = respace Rop (Some ?p) (skel False r)
          \<and> pend True (?R (Some ?p) r) = Eop (lastc (Some ?p) (skel False r)) (pend False r)"
        by (rule less.hyps[OF len]) (use r lp in \<open>auto simp: isopq_def\<close>)
      have wns: "\<forall>x\<in>set w. \<not> is_space x" using wops operator_not_space by blast
      have sk1: "skel b w = (b, c) # map (Pair False) w'" for b
        using skel_nospace(1)[OF wns, of b] w by simp
      have pe1: "pend b w = False" for b
        using skel_nospace(2)[OF wns, of b] wne by simp
      have first: "Rop q c bi = True"
        using less.prems cop Cons by (auto simp: Rop_def)
      have lc: "lastc (Some c) (map (Pair False) w') = Some ?p"
        unfolding w by (induction w' arbitrary: c) auto
      have lhs: "skel bo (?R prev (w @ r)) = (True, c) # map (Pair False) w' @ skel True (?R (Some ?p) r)"
        unfolding R skel_append pend_append sk1 pe1 by (simp add: blank_space)
      have rhs: "respace Rop q (skel bi (w @ r))
          = (True, c) # map (Pair False) w' @ respace Rop (Some ?p) (skel False r)"
        unfolding skel_append sk1 pe1 respace_append
        using first respace_run[OF w'ops cop] lc by simp
      have lhs2: "pend bo (?R prev (w @ r)) = pend True (?R (Some ?p) r)"
        unfolding R pend_append pe1 by (simp add: blank_space)
      have rhs2: "Eop (lastc q (skel bi (w @ r))) (pend bi (w @ r))
          = Eop (lastc (Some ?p) (skel False r)) (pend False r)"
        unfolding skel_append pend_append sk1 pe1 lastc_append
        using lc by simp
      show ?thesis unfolding Cons s lhs rhs lhs2 rhs2 using ih by simp
    qed
  qed
qed

subsection \<open>The rules for the comma and the parentheses on the skeleton\<close>

lemma re_around_head:
  assumes "\<not> is_space x"
  shows "\<exists>n. re_around x prev (x # cs) = Some n \<and> n > 0"
  using assms by (simp add: re_around_def)

lemma re_around_none:
  assumes "\<not> (\<exists>n. re_around x prev s = Some n \<and> n > 0)"
  shows "re_around x prev' s = None"
  using assms re_around_pos[of x prev s]
  by (cases "re_around x prev s") (auto simp: re_around_def)

lemma around_skel:
  assumes nx: "\<not> is_space x"
  shows "(q = Some x \<longrightarrow> bo = post \<and> (s = [] \<or> \<not> is_space (hd s))) \<Longrightarrow>
   (q \<noteq> Some x \<longrightarrow> bo = bi \<and> (bi \<longrightarrow> re_around x prev s = None)) \<Longrightarrow>
   skel bo (replace_all (re_around x) (\<lambda>_. x # (if post then '' '' else [])) prev s)
       = respace (Rx x post) q (skel bi s)
   \<and> pend bo (replace_all (re_around x) (\<lambda>_. x # (if post then '' '' else [])) prev s)
       = Ex x post (lastc q (skel bi s)) (pend bi s)"
proof (induction "length s" arbitrary: s bo bi q prev rule: less_induct)
  case less
  let ?R = "replace_all (re_around x) (\<lambda>_. x # (if post then '' '' else []))"
  show ?case
  proof (cases s)
    case Nil
    with less.prems show ?thesis by (auto simp: Ex_def)
  next
    case (Cons c cs)
    show ?thesis
    proof (cases "\<exists>n. re_around x prev (c # cs) = Some n \<and> n > 0")
      case False
      then have R: "?R prev (c # cs) = c # ?R (Some c) cs"
        by (rule replace_all_no_match)
      have cx: "c \<noteq> x" using False re_around_head[OF nx] by blast
      have none: "re_around x prev (c # cs) = None" using False by (rule re_around_none)
      have len: "length cs < length s" using Cons by simp
      show ?thesis
      proof (cases "is_space c")
        case True
        with less.prems(1) Cons have q: "q \<noteq> Some x" by auto
        with less.prems(2) have b: "bo = bi" by simp
        have n2: "re_around x (Some c) cs = None"
          using True none by (rule re_around_space_head)
        have "skel True (?R (Some c) cs) = respace (Rx x post) q (skel True cs)
          \<and> pend True (?R (Some c) cs) = Ex x post (lastc q (skel True cs)) (pend True cs)"
          by (rule less.hyps[OF len]) (use q n2 in auto)
        with True show ?thesis unfolding Cons R by simp
      next
        case sp: False
        have "skel False (?R (Some c) cs) = respace (Rx x post) (Some c) (skel False cs)
          \<and> pend False (?R (Some c) cs) = Ex x post (lastc (Some c) (skel False cs)) (pend False cs)"
          by (rule less.hyps[OF len]) (use cx in auto)
        moreover have "Rx x post q c bi = bo" using less.prems cx by (auto simp: Rx_def)
        ultimately show ?thesis using sp unfolding Cons R by simp
      qed
    next
      case True
      then obtain n where n: "re_around x prev (c # cs) = Some n" "n > 0" by blast
      from re_around_Some[OF n(1)] obtain sp1 sp2 r where
        s: "c # cs = sp1 @ x # sp2 @ r" and b1: "blank sp1" and b2: "blank sp2"
        and r: "r = [] \<or> \<not> is_space (hd r)" and nl: "n = length (sp1 @ x # sp2)" by blast
      define w where "w = sp1 @ x # sp2"
      have sw: "c # cs = w @ r" using s w_def by simp
      have wne: "w \<noteq> []" using w_def by simp
      have "re_around x prev (w @ r) = Some (length w)" using n(1) sw nl w_def by simp
      then have R: "?R prev (w @ r) = (x # (if post then '' '' else [])) @ ?R (Some (last w)) r"
        using wne by (rule replace_all_match)
      have len: "length r < length s" unfolding Cons sw using wne by simp
      have ih: "skel post (?R (Some (last w)) r) = respace (Rx x post) (Some x) (skel (sp2 \<noteq> []) r)
          \<and> pend post (?R (Some (last w)) r)
              = Ex x post (lastc (Some x) (skel (sp2 \<noteq> []) r)) (pend (sp2 \<noteq> []) r)"
        by (rule less.hyps[OF len]) (use r in auto)
      have first: "Rx x post q x b = bo" if "b = (bi \<or> sp1 \<noteq> [])" for b
      proof (cases "q = Some x")
        case True
        with less.prems(1) show ?thesis by (simp add: Rx_def)
      next
        case False
        with less.prems(2) n(1) Cons show ?thesis by (auto simp: Rx_def)
      qed
      have skw: "skel bi (w @ r) = (bi \<or> sp1 \<noteq> [], x) # skel (sp2 \<noteq> []) r"
        unfolding w_def using b1 b2 nx
        by (simp add: skel_append pend_append skel_blank pend_blank)
      have pew: "pend bi (w @ r) = pend (sp2 \<noteq> []) r"
        unfolding w_def using b1 b2 nx
        by (simp add: pend_append pend_blank)
      have lhs: "skel bo (?R prev (w @ r)) = (bo, x) # skel post (?R (Some (last w)) r)"
        unfolding R using nx by (simp add: blank_space)
      have lhs2: "pend bo (?R prev (w @ r)) = pend post (?R (Some (last w)) r)"
        unfolding R using nx by (simp add: blank_space)
      show ?thesis
        unfolding Cons sw lhs lhs2 skw pew using ih first by simp
    qed
  qed
qed

subsection \<open>Normalization before the function-call rule\<close>

lemma skel_rend: "nsl xs \<Longrightarrow> skel False (rend xs) = xs \<and> pend False (rend xs) = False"
proof (induction xs)
  case Nil
  then show ?case by simp
next
  case (Cons x xs)
  obtain b c where x: "x = (b, c)" by (cases x)
  with Cons show ?case by (auto simp: nsl_def blank_space)
qed

lemma tidy_rend_t: "nsl xs \<Longrightarrow> tidy False (rend xs)"
proof (induction xs)
  case Nil
  then show ?case by simp
next
  case (Cons x xs)
  obtain b c where x: "x = (b, c)" by (cases x)
  with Cons show ?case by (auto simp: nsl_def blank_space)
qed

lemma respace_entry:
  "respace R q xs = ys @ (f, c) # zs \<Longrightarrow> \<exists>b0. f = R (lastc q ys) c b0"
proof (induction xs arbitrary: q ys)
  case Nil
  then show ?case by simp
next
  case (Cons x xs)
  obtain b d where x: "x = (b, d)" by (cases x)
  show ?case
  proof (cases ys)
    case Nil
    with Cons.prems x show ?thesis by auto
  next
    case (Cons y ys')
    with Cons.prems x have "respace R (Some d) xs = ys' @ (f, c) # zs" and y: "y = (R q d b, d)"
      by auto
    from Cons.IH[OF this(1)] obtain b0 where "f = R (lastc (Some d) ys') c b0" by blast
    then show ?thesis using Cons y by auto
  qed
qed

lemma pre_calls_skel:
  "skel False (pre_calls sql) = respace Rn None (skel False sql)
   \<and> pend False (pre_calls sql) = En (lastc None (skel False sql))
   \<and> tidy False (pre_calls sql)"
proof -
  let ?x0 = "skel False sql"
  let ?s0 = "normalize_whitespace sql"
  let ?s1 = "space_operators ?s0"
  let ?s2 = "space_commas defaults ?s1"
  let ?s3 = "open_parens ?s2"
  let ?s4 = "close_parens ?s3"
  have n0: "nsl (respace unlead None ?x0)" by (simp add: nsl_respace nsl_skel)
  have k0: "skel False ?s0 = respace unlead None ?x0" "pend False ?s0 = False"
    unfolding normalize_whitespace_skel using skel_rend[OF n0] by auto
  have k1: "skel False ?s1 = respace Rop None (skel False ?s0)"
    "pend False ?s1 = Eop (lastc None (skel False ?s0)) (pend False ?s0)"
    unfolding space_operators_def using op_skel[of False False None ?s0 None]
    by (auto simp: isopq_def)
  have sep: "comma_separator defaults = CHR '','' # (if True then '' '' else [])"
    by (simp add: comma_separator_def defaults_def)
  have k2: "skel False ?s2 = respace (Rx CHR '','' True) None (skel False ?s1)"
    "pend False ?s2 = Ex CHR '','' True (lastc None (skel False ?s1)) (pend False ?s1)"
    unfolding space_commas_def sep
    using around_skel[OF comma_not_space, of None False True ?s1 False None] by auto
  have op: "''('' = CHR ''('' # (if False then '' '' else [])"
    and cl: "'') '' = CHR '')'' # (if True then '' '' else [])" by simp_all
  have k3: "skel False ?s3 = respace (Rx CHR ''('' False) None (skel False ?s2)"
    "pend False ?s3 = Ex CHR ''('' False (lastc None (skel False ?s2)) (pend False ?s2)"
    unfolding open_parens_def op
    using around_skel[OF paren_not_space(1), of None False False ?s2 False None] by auto
  have k4: "skel False ?s4 = respace (Rx CHR '')'' True) None (skel False ?s3)"
    "pend False ?s4 = Ex CHR '')'' True (lastc None (skel False ?s3)) (pend False ?s3)"
    unfolding close_parens_def cl
    using around_skel[OF paren_not_space(2), of None False True ?s3 False None] by auto
  from collapse_skel[of False None ?s4 False]
  have k5: "skel False (pre_calls sql) = skel False ?s4" "pend False (pre_calls sql) = pend False ?s4"
    "tidy False (pre_calls sql)"
    unfolding pre_calls_def collapse_spaces_def by auto
  have "skel False (pre_calls sql) = respace Rn None ?x0"
    unfolding k5 k4 k3 k2 k1 k0 respace_respace Rn_def ..
  moreover have "pend False (pre_calls sql) = En (lastc None ?x0)"
    unfolding k5 k4 k3 k2 k1 k0 lastc_respace En_def ..
  ultimately show ?thesis using k5(3) by simp
qed

subsection \<open>Normalization on the skeleton\<close>

lemma lastc_skel_snoc: "\<not> is_space p \<Longrightarrow> lastc q (skel b (a @ [p])) = Some p \<and> \<not> pend b (a @ [p])"
  by (induction a arbitrary: q b) auto

lemma Rn_word_paren: "is_word p \<Longrightarrow> Rn (Some p) CHR ''('' b = False"
  using word_not_paren[of p] by (auto simp: Rn_def Rx_def)

lemma call_is_identity:
  assumes sk: "skel False s = respace Rn None xs"
  shows "function_calls s = s"
  unfolding function_calls_def
proof (rule replace_all_id)
  fix a b n
  assume h: "s = a @ b" "re_call (last_before None a) b = Some n" "0 < n"
  from re_call_Some[OF h(2)] obtain w sp r where
    b: "b = w @ sp @ CHR ''('' # r" and wne: "w \<noteq> []" and ww: "\<forall>c\<in>set w. is_word c"
    and bs: "blank sp" and n: "n = length w + length sp + 1" by blast
  have spe: "sp = []"
  proof (rule ccontr)
    assume ne: "sp \<noteq> []"
    let ?p = "last w"
    have pw: "is_word ?p" using ww wne by simp
    then have pns: "\<not> is_space ?p" by (rule word_not_space)
    have aw: "a @ w = (a @ butlast w) @ [?p]" using wne by simp
    have l: "lastc None (skel False (a @ w)) = Some ?p" "\<not> pend False (a @ w)"
      using lastc_skel_snoc[OF pns, of None False "a @ butlast w"] aw by simp_all
    have "skel False s = skel False (a @ w) @ skel (pend False (a @ w)) (sp @ CHR ''('' # r)"
      unfolding h(1) b by (metis append.assoc skel_append)
    also have "skel (pend False (a @ w)) (sp @ CHR ''('' # r) = (True, CHR ''('') # skel False r"
      using bs ne paren_not_space by (simp add: skel_append skel_blank pend_blank)
    finally have "respace Rn None xs = skel False (a @ w) @ (True, CHR ''('') # skel False r"
      using sk by simp
    from respace_entry[OF this] l obtain b0 where "True = Rn (Some ?p) CHR ''('' b0" by auto
    with Rn_word_paren[OF pw] show False by simp
  qed
  have "take n b = w @ ''(''" unfolding b n spe by simp
  moreover have "takeWhile is_word (w @ ''('') = w"
    using ww by (simp add: takeWhile_append2 is_word_bits letter_bits_def)
  ultimately show "call_replacement (take n b) = take n b"
    by (simp add: call_replacement_def)
qed

lemma normalize_skel:
  "skel False (normalize defaults sql) = respace Rn None (skel False sql)
   \<and> pend False (normalize defaults sql) = En (lastc None (skel False sql))
   \<and> tidy False (normalize defaults sql)"
proof -
  have "normalize defaults sql = function_calls (pre_calls sql)"
    by (simp add: normalize_def pre_calls_def)
  also have "\<dots> = pre_calls sql"
    using pre_calls_skel[of sql] by (intro call_is_identity) auto
  finally show ?thesis using pre_calls_skel[of sql] by simp
qed

subsection \<open>Strings that differ in letter case and in harmless spaces\<close>

lemma is_space_upper: "is_space (to_upper c) = is_space c"
  by (cases c) (auto simp: to_upper_bits is_space_bits letter_bits_def)

lemma blank_not_word: "\<not> is_word CHR '' ''"
  by code_simp

lemma upper_of_blank: "to_upper CHR '' '' = CHR '' ''"
  by code_simp

lemma upper_blank: "to_upper c = CHR '' '' \<Longrightarrow> c = CHR '' ''"
proof (rule ccontr)
  assume a: "to_upper c = CHR '' ''" and n: "c \<noteq> CHR '' ''"
  from a have "\<not> is_word c" using is_word_upper[of c] blank_not_word by simp
  then have "to_upper c = c" by (cases c) (auto simp add: to_upper_bits is_word_bits)
  with a n show False by simp
qed

lemma raise_props:
  assumes "raise c c'"
  shows "to_upper c' = to_upper c" "is_word c' = is_word c" "is_space c' = is_space c"
  using assms by (auto simp: raise_def to_upper_idem is_word_upper is_space_upper)

lemma raise_refl: "raise c c"
  by (simp add: raise_def)

lemma upper_eq_word: "to_upper c = to_upper k \<Longrightarrow> is_word c = is_word k"
  by (rule is_word_ci)

lemma match_transfer:
  "shp k0 ks \<Longrightarrow> raise c c' \<Longrightarrow> srel (Some c) s t \<Longrightarrow>
     match_ci (k0 # ks) p (c # s) = match_ci (k0 # ks) p' (c' # t)"
proof (induction ks arbitrary: k0 c c' s t p p')
  case Nil
  note r = raise_props[OF Nil.prems(2)]
  show ?case
  proof (cases "to_upper c = to_upper k0")
    case False
    with r show ?thesis by simp
  next
    case True
    have wc: "is_word c" using is_word_ci[OF True] Nil.prems(1) by simp
    have "word_boundary (Some c) s = word_boundary (Some c') t"
      using Nil.prems(3)
    proof (cases rule: srel.cases)
      case srel_Nil
      then show ?thesis by (simp add: word_boundary_def r)
    next
      case srel_End
      then show ?thesis by (simp add: word_boundary_def r blank_not_word)
    next
      case (srel_Keep d d' s0 t0)
      then show ?thesis using raise_props[of d d'] by (simp add: word_boundary_def r)
    next
      case (srel_Ins d d' s0 t0)
      then show ?thesis using wc by (auto simp: word_boundary_def r blank_not_word harmless_def)
    qed
    with True r show ?thesis by simp
  qed
next
  case (Cons k1 ks')
  note r = raise_props[OF Cons.prems(2)]
  from Cons.prems(1) have sh: "is_word k0 \<or> (k0 = CHR '' '' \<and> is_word k1)" "shp k1 ks'" by auto
  show ?case
  proof (cases "to_upper c = to_upper k0")
    case False
    with r show ?thesis by simp
  next
    case True
    have "match_ci (k1 # ks') (Some c) s = match_ci (k1 # ks') (Some c') t"
      using Cons.prems(3)
    proof (cases rule: srel.cases)
      case srel_Nil
      then show ?thesis by simp
    next
      case srel_End
      then show ?thesis
        by (cases ks') (auto simp: word_boundary_def blank_not_word)
    next
      case (srel_Keep d d' s0 t0)
      then show ?thesis using Cons.IH[OF sh(2), of d d' s0 t0] by simp
    next
      case (srel_Ins d d' s0 t0)
      note rd = raise_props[OF srel_Ins(4)]
      from srel_Ins(3) have h: "\<not> is_space d" "\<not> is_space c" "\<not> (is_word c \<and> is_word d)"
        by (auto simp: harmless_def)
      have wk0: "is_word k0"
      proof (rule ccontr)
        assume "\<not> is_word k0"
        with sh(1) have "k0 = CHR '' ''" by simp
        with True have "c = CHR '' ''" using upper_blank[of c] by (simp add: upper_of_blank)
        with h(2) show False by (simp add: blank_space)
      qed
      then have wc: "is_word c" using is_word_ci[OF True] by simp
      with h(3) have nd: "\<not> is_word d" by simp
      have l: "\<not> match_ci (k1 # ks') (Some c) (d # s0)"
      proof
        assume m: "match_ci (k1 # ks') (Some c) (d # s0)"
        then have u: "to_upper d = to_upper k1" by (simp split: if_splits)
        then have nk: "\<not> is_word k1" using nd is_word_ci[of d k1] by simp
        show False
        proof (cases ks')
          case Nil
          with sh(2) nk show False by simp
        next
          case (Cons k2 ks'')
          with sh(2) nk have "k1 = CHR '' ''" by simp
          with u have "d = CHR '' ''" using upper_blank[of d] by (simp add: upper_of_blank)
          with h(1) show False by (simp add: blank_space)
        qed
      qed
      have rr: "\<not> match_ci (k1 # ks') (Some c') (CHR '' '' # d' # t0)"
      proof
        assume m: "match_ci (k1 # ks') (Some c') (CHR '' '' # d' # t0)"
        then have u: "to_upper CHR '' '' = to_upper k1"
          and m2: "match_ci ks' (Some CHR '' '') (d' # t0)" by (simp_all split: if_splits)
        from u have "\<not> is_word k1" using is_word_ci[of "CHR '' ''" k1] blank_not_word by simp
        show False
        proof (cases ks')
          case Nil
          with sh(2) \<open>\<not> is_word k1\<close> show False by simp
        next
          case (Cons k2 ks'')
          with sh(2) \<open>\<not> is_word k1\<close> have "is_word k2" by simp
          moreover from m2 Cons have "to_upper d' = to_upper k2" by (simp split: if_splits)
          ultimately have "is_word d'" using is_word_ci[of d' k2] by simp
          with rd nd show False by simp
        qed
      qed
      from l rr srel_Ins show ?thesis by simp
    qed
    with True r show ?thesis by simp
  qed
qed

subsection \<open>An alternation matches the same on both strings\<close>

lemma word_boundary_Cons: "word_boundary p (c # s) = (wordp p \<noteq> is_word c)"
  by (simp add: word_boundary_def wordp_def)

lemma oraise_wordp: "oraise p p' \<Longrightarrow> wordp p' = wordp p"
  by (auto simp: oraise_def wordp_def raise_props split: option.splits)

lemma harmless_wordp: "harmless p c \<Longrightarrow> is_word c \<Longrightarrow> \<not> wordp p"
  by (auto simp: harmless_def wordp_def split: option.splits)

lemma harmless_endok: "harmless p c \<Longrightarrow> endok p"
  by (auto simp: harmless_def endok_def split: option.splits)

lemma match_ci_needs_word:
  assumes "kwshape k" "match_ci k p (c # s)"
  shows "is_word c"
proof -
  from assms(1) obtain k0 ks where k: "k = k0 # ks" "is_word k0"
    by (auto simp: kwshape_def split: list.splits)
  with assms(2) have "to_upper c = to_upper k0" by (simp split: if_splits)
  from is_word_ci[OF this] k(2) show ?thesis by simp
qed

lemma re_words_nonword:
  assumes "\<forall>k\<in>set ks. kwshape k" "\<not> is_word c"
  shows "re_words ks p (c # s) = None"
proof -
  have "find (\<lambda>k. match_ci k p (c # s)) ks = None"
    unfolding find_None_iff using assms match_ci_needs_word by blast
  then show ?thesis by (simp add: re_words_def)
qed

lemma re_words_transfer:
  assumes sh: "\<forall>k\<in>set ks. kwshape k" and r: "raise c c'" and s: "srel (Some c) s t"
    and w: "is_word c \<Longrightarrow> wordp p = wordp p'"
  shows "re_words ks p (c # s) = re_words ks p' (c' # t)"
proof (cases "is_word c")
  case False
  then have "\<not> is_word c'" using raise_props(2)[OF r] by simp
  with False sh show ?thesis by (simp add: re_words_nonword)
next
  case True
  have wb: "word_boundary p (c # s) = word_boundary p' (c' # t)"
    using w[OF True] raise_props(2)[OF r] by (simp add: word_boundary_Cons)
  have "\<And>k. k \<in> set ks \<Longrightarrow> match_ci k p (c # s) = match_ci k p' (c' # t)"
  proof -
    fix k assume "k \<in> set ks"
    with sh have "kwshape k" by simp
    then obtain k0 ks0 where k: "k = k0 # ks0" "shp k0 ks0"
      by (auto simp: kwshape_def split: list.splits)
    show "match_ci k p (c # s) = match_ci k p' (c' # t)"
      unfolding k(1) by (rule match_transfer[OF k(2) r s])
  qed
  then have "find (\<lambda>k. match_ci k p (c # s)) ks = find (\<lambda>k. match_ci k p' (c' # t)) ks"
    by (intro find_cong) simp_all
  with wb show ?thesis by (simp add: re_words_def)
qed

lemma no_ins_in_match:
  assumes sh: "shp k0 (k1 # ks')" and u: "to_upper c = to_upper k0" and h: "harmless (Some c) d"
  shows "\<not> match_ci (k1 # ks') q (d # s0)"
proof
  assume m: "match_ci (k1 # ks') q (d # s0)"
  from sh have sh1: "is_word k0 \<or> (k0 = CHR '' '' \<and> is_word k1)" and sh2: "shp k1 ks'" by auto
  from h have h': "\<not> is_space d" "\<not> is_space c" "\<not> (is_word c \<and> is_word d)"
    by (auto simp: harmless_def)
  have wk0: "is_word k0"
  proof (rule ccontr)
    assume "\<not> is_word k0"
    with sh1 have "k0 = CHR '' ''" by simp
    with u have "c = CHR '' ''" using upper_blank[of c] by (simp add: upper_of_blank)
    with h'(2) show False by (simp add: blank_space)
  qed
  then have "is_word c" using is_word_ci[OF u] by simp
  with h'(3) have nd: "\<not> is_word d" by simp
  from m have ud: "to_upper d = to_upper k1" by (simp split: if_splits)
  then have nk: "\<not> is_word k1" using nd is_word_ci[of d k1] by simp
  show False
  proof (cases ks')
    case Nil
    with sh2 nk show False by simp
  next
    case (Cons k2 ks'')
    with sh2 nk have "k1 = CHR '' ''" by simp
    with ud have "d = CHR '' ''" using upper_blank[of d] by (simp add: upper_of_blank)
    with h'(1) show False by (simp add: blank_space)
  qed
qed

lemma peel:
  "shp k0 ks \<Longrightarrow> raise c c' \<Longrightarrow> srel (Some c) s t \<Longrightarrow> match_ci (k0 # ks) p (c # s) \<Longrightarrow>
     list_all2 raise (take (Suc (length ks)) (c # s)) (take (Suc (length ks)) (c' # t))
     \<and> length ks \<le> length s
     \<and> srel (Some (last (take (Suc (length ks)) (c # s)))) (drop (length ks) s) (drop (length ks) t)"
proof (induction ks arbitrary: k0 c c' s t p)
  case Nil
  then show ?case by simp
next
  case (Cons k1 ks')
  from Cons.prems(1) have sh2: "shp k1 ks'" by simp
  from Cons.prems(4) have u: "to_upper c = to_upper k0" and m: "match_ci (k1 # ks') (Some c) s"
    by (simp_all split: if_splits)
  from m obtain d s0 where s: "s = d # s0" by (cases s) auto
  from Cons.prems(3) show ?case
  proof (cases rule: srel.cases)
    case srel_Nil
    with s show ?thesis by simp
  next
    case srel_End
    with s show ?thesis by simp
  next
    case (srel_Keep e e' s1 t1)
    with s have e: "e = d" "s1 = s0" by simp_all
    from Cons.IH[OF sh2 srel_Keep(3)[unfolded e] srel_Keep(4)[unfolded e] m[unfolded s]]
    have ih: "list_all2 raise (take (Suc (length ks')) (d # s0)) (take (Suc (length ks')) (e' # t1))"
      "length ks' \<le> length s0"
      "srel (Some (last (take (Suc (length ks')) (d # s0)))) (drop (length ks') s0) (drop (length ks') t1)"
      by simp_all
    have l: "last (take (Suc (Suc (length ks'))) (c # d # s0)) = last (take (Suc (length ks')) (d # s0))"
      by simp
    show ?thesis
      unfolding s srel_Keep(2) using ih Cons.prems(2) l by simp
  next
    case (srel_Ins e e' s1 t1)
    with s have e: "e = d" "s1 = s0" by simp_all
    from no_ins_in_match[OF Cons.prems(1) u srel_Ins(3)[unfolded e]] m s
    show ?thesis by simp
  qed
qed

lemma split_from_acc:
  "split_from m p acc s = (acc @ hd (split_from m p [] s)) # tl (split_from m p [] s)"
proof (induction s arbitrary: p acc)
  case Nil
  then show ?case by simp
next
  case (Cons c cs)
  have step: "split_from m (Some c) (acc @ [c]) cs
      = (acc @ hd (split_from m (Some c) [c] cs)) # tl (split_from m (Some c) [c] cs)"
    using Cons[of "Some c" "acc @ [c]"] Cons[of "Some c" "[c]"] by simp
  show ?case
  proof (cases "m p (c # cs)")
    case None
    with step show ?thesis by simp
  next
    case (Some n)
    with step show ?thesis by (cases "n = 0") simp_all
  qed
qed

subsection \<open>Splitting both strings gives pieces that correspond\<close>

lemma pieces_rel_Cons: "pieces_rel p (a # R) (a' # R') = (srel p a a' \<and> tails R R')"
  by (cases R; cases R') (auto simp: tails_def split: list.splits)

lemma pieces_rel_E:
  assumes "pieces_rel p L L'"
  obtains a R a' R' where "L = a # R" "L' = a' # R'" "srel p a a'" "tails R R'"
proof -
  from assms obtain a R where L: "L = a # R" by (cases L) auto
  with assms obtain a' R' where L': "L' = a' # R'"
    by (cases L'; cases R) auto
  from assms L L' have "srel p a a' \<and> tails R R'" by (simp add: pieces_rel_Cons)
  with L L' that show ?thesis by blast
qed

lemma list_all2_last:
  "list_all2 P xs ys \<Longrightarrow> xs \<noteq> [] \<Longrightarrow> P (last xs) (last ys)"
  by (induction rule: list_all2_induct) (auto simp: list_all2_Nil)

lemma lock_core:
  assumes sh: "\<forall>k\<in>set ks. kwshape k" and r: "raise c c'" and s: "srel (Some c) s0 t0"
    and w: "is_word c \<Longrightarrow> wordp p = wordp q'"
    and IH: "\<And>s1 t1 p1 p1'. length s1 \<le> length s0 \<Longrightarrow> srel p1 s1 t1 \<Longrightarrow> oraise p1 p1'
               \<Longrightarrow> pieces_rel p1 (split_from (re_words ks) p1 [] s1)
                                 (split_from (re_words ks) p1' [] t1)"
  shows "\<exists>a a' R R'. split_from (re_words ks) p [] (c # s0) = a # R
           \<and> split_from (re_words ks) q' [] (c' # t0) = a' # R'
           \<and> ((a = [] \<and> a' = []) \<or> (\<exists>a0 a0'. a = c # a0 \<and> a' = c' # a0' \<and> srel (Some c) a0 a0'))
           \<and> tails R R'"
proof -
  let ?m = "re_words ks"
  have eq: "?m p (c # s0) = ?m q' (c' # t0)"
    by (rule re_words_transfer[OF sh r s w])
  have or: "oraise (Some c) (Some c')" using r by (simp add: oraise_def)
  show ?thesis
  proof (cases "?m p (c # s0)")
    case None
    from IH[OF le_refl s or]
    obtain a0 R a0' R' where L: "split_from ?m (Some c) [] s0 = a0 # R"
      "split_from ?m (Some c') [] t0 = a0' # R'" "srel (Some c) a0 a0'" "tails R R'"
      by (rule pieces_rel_E)
    have 1: "split_from ?m p [] (c # s0) = (c # a0) # R"
      using None split_from_acc[of ?m "Some c" "[c]" s0] L(1) by simp
    have 2: "split_from ?m q' [] (c' # t0) = (c' # a0') # R'"
      using None eq split_from_acc[of ?m "Some c'" "[c']" t0] L(2) by simp
    from 1 2 L(3,4) show ?thesis by simp
  next
    case (Some n)
    from re_words_Some[OF Some] obtain k where k: "k \<in> set ks" "n = length k" "match_ci k p (c # s0)"
      by blast
    from sh k(1) have "kwshape k" by simp
    then obtain k0 ks0 where kk: "k = k0 # ks0" "shp k0 ks0"
      by (auto simp: kwshape_def split: list.splits)
    have n: "n = Suc (length ks0)" using k(2) kk(1) by simp
    from peel[OF kk(2) r s k(3)[unfolded kk(1)]]
    have pl: "list_all2 raise (take n (c # s0)) (take n (c' # t0))"
      "length ks0 \<le> length s0"
      "srel (Some (last (take n (c # s0)))) (drop (length ks0) s0) (drop (length ks0) t0)"
      unfolding n by simp_all
    let ?w = "take n (c # s0)" and ?w' = "take n (c' # t0)"
    have wne: "?w \<noteq> []" using n by simp
    have lr: "raise (last ?w) (last ?w')" by (rule list_all2_last[OF pl(1) wne])
    then have or2: "oraise (Some (last ?w)) (Some (last ?w'))" by (simp add: oraise_def)
    have len: "length (drop (length ks0) s0) \<le> length s0" by simp
    have ih: "pieces_rel (Some (last ?w)) (split_from ?m (Some (last ?w)) [] (drop (length ks0) s0))
                (split_from ?m (Some (last ?w')) [] (drop (length ks0) t0))"
      by (rule IH[OF len pl(3) or2])
    have d1: "drop n (c # s0) = drop (length ks0) s0" using n by simp
    have d2: "drop n (c' # t0) = drop (length ks0) t0" using n by simp
    have n0: "n \<noteq> 0" using n by simp
    have 1: "split_from ?m p [] (c # s0)
               = [] # ?w # split_from ?m (Some (last ?w)) [] (drop (length ks0) s0)"
      using Some n0 d1 by simp
    have 2: "split_from ?m q' [] (c' # t0)
               = [] # ?w' # split_from ?m (Some (last ?w')) [] (drop (length ks0) t0)"
      using Some eq n0 d2 by simp
    have "tails (?w # split_from ?m (Some (last ?w)) [] (drop (length ks0) s0))
                (?w' # split_from ?m (Some (last ?w')) [] (drop (length ks0) t0))"
      unfolding tails_def using wne pl(1) ih by simp
    with 1 2 show ?thesis by simp
  qed
qed

lemma split_lockstep:
  assumes sh: "\<forall>k\<in>set ks. kwshape k"
  shows "srel p s t \<Longrightarrow> oraise p p'
     \<Longrightarrow> pieces_rel p (split_from (re_words ks) p [] s) (split_from (re_words ks) p' [] t)"
proof (induction "length s" arbitrary: p p' s t rule: less_induct)
  case less
  let ?m = "re_words ks"
  from less.prems(1) show ?case
  proof (cases rule: srel.cases)
    case srel_Nil
    then show ?thesis by (simp add: srel.srel_Nil)
  next
    case srel_End
    have "?m p' '' '' = None" using re_words_nonword[OF sh blank_not_word] by simp
    with srel_End show ?thesis by (simp add: srel.srel_End)
  next
    case (srel_Keep c c' s0 t0)
    have IH: "\<And>s1 t1 p1 p1'. length s1 \<le> length s0 \<Longrightarrow> srel p1 s1 t1 \<Longrightarrow> oraise p1 p1'
               \<Longrightarrow> pieces_rel p1 (split_from ?m p1 [] s1) (split_from ?m p1' [] t1)"
      using less.hyps srel_Keep(1) by simp
    have w: "is_word c \<Longrightarrow> wordp p = wordp p'" using oraise_wordp[OF less.prems(2)] by simp
    from lock_core[OF sh srel_Keep(3) srel_Keep(4) w IH]
    obtain a a' R R' where c: "split_from ?m p [] (c # s0) = a # R"
      "split_from ?m p' [] (c' # t0) = a' # R'"
      "(a = [] \<and> a' = []) \<or> (\<exists>a0 a0'. a = c # a0 \<and> a' = c' # a0' \<and> srel (Some c) a0 a0')"
      "tails R R'" by blast
    from c(3) have "srel p a a'"
      using srel_Keep(3) by (auto intro: srel.srel_Nil srel.srel_Keep)
    with c srel_Keep(1,2) show ?thesis by (simp add: pieces_rel_Cons)
  next
    case (srel_Ins c c' s0 t0)
    have IH: "\<And>s1 t1 p1 p1'. length s1 \<le> length s0 \<Longrightarrow> srel p1 s1 t1 \<Longrightarrow> oraise p1 p1'
               \<Longrightarrow> pieces_rel p1 (split_from ?m p1 [] s1) (split_from ?m p1' [] t1)"
      using less.hyps srel_Ins(1) by simp
    have w: "is_word c \<Longrightarrow> wordp p = wordp (Some CHR '' '')"
      using harmless_wordp[OF srel_Ins(3)] by (simp add: wordp_def blank_not_word)
    from lock_core[OF sh srel_Ins(4) srel_Ins(5) w IH]
    obtain a a' R R' where c: "split_from ?m p [] (c # s0) = a # R"
      "split_from ?m (Some CHR '' '') [] (c' # t0) = a' # R'"
      "(a = [] \<and> a' = []) \<or> (\<exists>a0 a0'. a = c # a0 \<and> a' = c' # a0' \<and> srel (Some c) a0 a0')"
      "tails R R'" by blast
    have none: "?m p' (CHR '' '' # c' # t0) = None"
      using re_words_nonword[OF sh blank_not_word] by simp
    have t: "split_from ?m p' [] t = (CHR '' '' # a') # R'"
      unfolding srel_Ins(2) using none split_from_acc[of ?m "Some CHR '' ''" "'' ''" "c' # t0"] c(2)
      by simp
    from c(3) have "srel p a (CHR '' '' # a')"
      using srel_Ins(3,4) harmless_endok[OF srel_Ins(3)]
      by (auto intro: srel.srel_End srel.srel_Ins)
    with c(1,4) t srel_Ins(1) show ?thesis by (simp add: pieces_rel_Cons)
  qed
qed

subsection \<open>The loops as folds, and the skeleton of their result\<close>

lemma setf_Nil [simp]: "setf b [] = []"
  by (simp add: setf_def)

lemma setf_Cons [simp]: "setf b ((b', c) # r) = (b, c) # r"
  by (simp add: setf_def)

lemma setf_setf [simp]: "setf b (setf b' xs) = setf b xs"
  by (cases xs) auto

lemma setf_eq_Nil [simp]: "setf b xs = [] \<longleftrightarrow> xs = []"
  by (cases xs) auto

lemma setf_append: "setf b (xs @ ys) = (if xs = [] then setf b ys else setf b xs @ ys)"
  by (cases xs) auto

lemma length_setf [simp]: "length (setf b xs) = length xs"
  by (cases xs) auto

lemma setf_skel: "setf x (skel b s) = setf x (skel b' s)"
  by (induction s arbitrary: b b') auto

lemma skel_True: "skel True s = chunk s"
proof -
  have "setf True (skel True s) = skel True s"
    by (induction s) auto
  then show ?thesis unfolding chunk_def using setf_skel[of True True s False] by simp
qed

lemma skel_dropWhile: "skel b (dropWhile is_space s) = setf b (skel b' s)"
  by (induction s arbitrary: b') auto

lemma blank_rev_takeWhile: "blank (rev (takeWhile is_space (rev s)))"
  unfolding blank_def by (auto dest: set_takeWhileD)

lemma skel_drop_trailing: "skel b (rev (dropWhile is_space (rev s))) = skel b s"
proof -
  let ?v = "rev (dropWhile is_space (rev s))" and ?w = "rev (takeWhile is_space (rev s))"
  have "s = ?v @ ?w"
    by (metis rev_append rev_rev_ident takeWhile_dropWhile_id)
  then have "skel b s = skel b (?v @ ?w)" by simp
  also have "\<dots> = skel b ?v" by (simp add: skel_append skel_blank[OF blank_rev_takeWhile])
  finally show ?thesis by simp
qed

lemma skel_trim: "skel b (trim s) = setf b (skel False s)"
  unfolding trim_def skel_drop_trailing by (rule skel_dropWhile)

lemma chunk_trim: "chunk (trim s) = chunk s"
  by (simp add: chunk_def skel_trim)

lemma chunk_Nil [simp]: "chunk [] = []"
  by (simp add: chunk_def)

lemma chunk_blank: "blank s \<Longrightarrow> chunk s = []"
  by (simp add: chunk_def skel_blank)

lemma trim_Nil_blank: "trim s = [] \<longleftrightarrow> blank s"
proof
  assume t: "trim s = []"
  let ?d = "dropWhile is_space s"
  from t have "dropWhile is_space (rev ?d) = []" by (simp add: trim_def)
  then have a: "\<forall>x\<in>set ?d. is_space x"
    using dropWhile_eq_Nil_conv[of is_space "rev ?d"] by simp
  have "?d = []"
  proof (rule ccontr)
    assume n: "?d \<noteq> []"
    then have "\<not> is_space (hd ?d)" by (rule hd_dropWhile)
    moreover have "hd ?d \<in> set ?d" using n by simp
    ultimately show False using a by blast
  qed
  then show "blank s" unfolding blank_def by (induction s) (auto split: if_splits)
next
  assume "blank s"
  then have d: "dropWhile is_space s = []" by (induction s) (auto simp: blank_def)
  show "trim s = []" unfolding trim_def d by simp
qed

lemma setf_True_chunk [simp]: "setf True (chunk s) = chunk s"
  by (simp add: chunk_def)

lemma chunk_append_sp: "chunk (a @ '' '' @ t) = chunk a @ chunk t"
proof -
  have "skel False (a @ '' '' @ t) = skel False a @ skel True t"
    by (simp add: skel_append blank_space)
  then have "chunk (a @ '' '' @ t) = setf True (skel False a @ chunk t)"
    by (simp add: chunk_def skel_True[symmetric]) (simp add: skel_True chunk_def)
  then show ?thesis
    by (simp add: setf_append) (simp add: chunk_def)
qed

lemma och_result:
  "och st = concat (map chunk (result st)) @ chunk (currentPart st)"
  by (simp add: och_def push_current_def chunk_trim)

lemma och_jstep: "och (jstep st p) = och st @ chunk p"
proof (cases "trim p = []")
  case True
  then have "chunk p = []" using chunk_blank trim_Nil_blank by blast
  with True show ?thesis by (simp add: jstep_def)
next
  case False
  show ?thesis
  proof (cases "endsWith ''JOIN'' (toUpperCase (trim p))")
    case True
    with False have "jstep st p = \<lparr> result = push_current st, currentPart = trim p \<rparr>"
      by (simp add: jstep_def)
    then show ?thesis
      by (simp add: och_result[of "\<lparr> result = push_current st, currentPart = trim p \<rparr>"] chunk_trim)
         (simp add: och_def)
  next
    case F2: False
    with False have "jstep st p = st\<lparr> currentPart := currentPart st @ '' '' @ trim p \<rparr>"
      by (simp add: jstep_def)
    then show ?thesis
      using chunk_append_sp[of "currentPart st" "trim p"]
      by (simp add: och_result chunk_trim)
  qed
qed

lemma och_foldl_jstep: "och (foldl jstep st ps) = och st @ concat (map chunk ps)"
  by (induction ps arbitrary: st) (simp_all add: och_jstep)

lemma concat_split_from: "concat (split_from m p acc s) = acc @ s"
proof (induction m p acc s rule: split_from.induct)
  case (1 m prev acc)
  then show ?case by simp
next
  case (2 m prev acc c cs)
  show ?case
  proof (cases "m prev (c # cs)")
    case None
    with 2(1)[OF None] show ?thesis by simp
  next
    case (Some n)
    show ?thesis
    proof (cases "n = 0")
      case True
      with Some 2(2)[OF Some True] show ?thesis by simp
    next
      case False
      with Some 2(3)[OF Some False] show ?thesis
        by simp
    qed
  qed
qed

lemma concat_split_re: "concat (split_re m s) = s"
  by (simp add: split_re_def concat_split_from)

lemma blank_concat: "blank (concat ps) \<Longrightarrow> p \<in> set ps \<Longrightarrow> blank p"
  by (auto simp: blank_def)

lemma och_mstep: "och (mstep st part) = och st @ concat (map chunk (sub_pieces part))"
proof (cases "trim part = []")
  case True
  then have b: "blank part" by (simp add: trim_Nil_blank)
  have "\<And>p. p \<in> set (sub_pieces part) \<Longrightarrow> chunk p = []"
  proof -
    fix p assume p: "p \<in> set (sub_pieces part)"
    have "blank (concat (sub_pieces part))"
      using b by (simp add: sub_pieces_def concat_split_re)
    from blank_concat[OF this p] show "chunk p = []" by (rule chunk_blank)
  qed
  then have "concat (map chunk (sub_pieces part)) = []" by simp
  with True show ?thesis by (simp add: mstep_def)
next
  case False
  show ?thesis
  proof (cases "toUpperCase (trim part) \<in> set MAIN_KEYWORDS")
    case True
    with False have "mstep st part = \<lparr> result = push_current st, currentPart = part \<rparr>"
      by (simp add: mstep_def)
    moreover have "och \<lparr> result = push_current st, currentPart = part \<rparr>
        = concat (map chunk (push_current st)) @ chunk part"
      by (simp add: och_result[of "\<lparr> result = push_current st, currentPart = part \<rparr>"])
    moreover have "och st = concat (map chunk (push_current st))" by (simp add: och_def)
    ultimately show ?thesis using True by (simp add: sub_pieces_def)
  next
    case F2: False
    with False show ?thesis by (simp add: mstep_def sub_pieces_def och_foldl_jstep)
  qed
qed

lemma och_foldl_mstep:
  "och (foldl mstep st parts) = och st @ concat (map chunk (concat (map sub_pieces parts)))"
  by (induction parts arbitrary: st) (simp_all add: och_mstep)

lemma join_body_jstep:
  "i < length jps \<Longrightarrow> join_body jps i st = Inr (jstep st (jps ! i))"
  by (auto simp add: join_body_def jstep_def at_index_def Let_def)

lemma join_loop_foldl: "join_loop jps i st = Inr (foldl jstep st (drop i jps))"
proof (induction jps i st rule: join_loop.induct)
  case (1 jps i st)
  show ?case
  proof (cases "i < length jps")
    case True
    note b = join_body_jstep[OF True, of st]
    have d: "drop i jps = jps ! i # drop (Suc i) jps" using True by (simp add: Cons_nth_drop_Suc)
    from 1[OF True b] b True show ?thesis
      by (simp add: join_loop.simps[of jps i] d)
  next
    case False
    then show ?thesis by (simp add: join_loop.simps[of jps i])
  qed
qed

lemma main_body_mstep: "main_body part st = Inr (mstep st part)"
  unfolding main_body_def mstep_def join_loop_foldl by simp

lemma main_loop_foldl: "main_loop parts st = Inr (foldl mstep st parts)"
  by (induction parts arbitrary: st) (simp_all add: main_body_mstep)

lemma segment_foldl:
  "segment s = Inr (push_current (foldl mstep \<lparr> result = [], currentPart = [] \<rparr> (split_re re_main s)))"
  by (simp add: segment_def main_loop_foldl)

lemma segment_chunks:
  "segment s = Inr C \<Longrightarrow> concat (map chunk C) = concat (map chunk (flatp s))"
  using och_foldl_mstep[of "\<lparr> result = [], currentPart = [] \<rparr>" "split_re re_main s"]
  by (simp add: segment_foldl och_def flatp_def push_current_def)

subsection \<open>The skeleton of the assembled output\<close>

lemma newline_space: "is_space (CHR 0x0A)"
  by code_simp

lemma skel_raise:
  "list_all2 raise s t \<Longrightarrow> list_all2 fr (skel b s) (skel b t) \<and> pend b s = pend b t"
proof (induction s arbitrary: b t)
  case Nil
  then show ?case by simp
next
  case (Cons c cs)
  from Cons.prems obtain c' t0 where t: "t = c' # t0" "raise c c'" "list_all2 raise cs t0"
    by (auto simp: list_all2_Cons1)
  note r = raise_props[OF t(2)]
  show ?case
  proof (cases "is_space c")
    case True
    with Cons.IH[OF t(3), of True] t(1) r show ?thesis by simp
  next
    case False
    with Cons.IH[OF t(3), of False] t(1,2) r show ?thesis by (simp add: fr_def)
  qed
qed

lemma setf_fr: "list_all2 fr xs ys \<Longrightarrow> list_all2 fr (setf b xs) (setf b ys)"
  by (cases xs; cases ys) (auto simp: fr_def)

lemma join_raise:
  "list_all2 (list_all2 raise) C D \<Longrightarrow> list_all2 raise (join_with sep C) (join_with sep D)"
proof (induction sep C arbitrary: D rule: join_with.induct)
  case (1 sep)
  then show ?case by simp
next
  case (2 sep x)
  then show ?case by (auto simp: list_all2_Cons1)
next
  case (3 sep x y ys)
  from 3(2) obtain x' D' where D: "D = x' # D'" "list_all2 raise x x'"
    "list_all2 (list_all2 raise) (y # ys) D'" by (auto simp: list_all2_Cons1)
  from D(3) obtain y' D'' where D': "D' = y' # D''" by (auto simp: list_all2_Cons1)
  have s: "list_all2 raise sep sep" by (simp add: list_all2_same raise_refl)
  from 3(1)[OF D(3)] D(1,2) D' s show ?case
    by (simp add: list_all2_appendI)
qed

lemma setf_True_concat_chunk: "setf True (concat (map chunk C)) = concat (map chunk C)"
  by (induction C) (simp_all add: setf_append)

lemma skel_Nil_iff: "skel b s = [] \<longleftrightarrow> skel b' s = []"
  using setf_skel[of True b s b'] by (metis setf_eq_Nil)

lemma skel_join:
  "setf x (skel b (join_with [CHR 0x0A] C)) = setf x (concat (map chunk C))"
proof (induction "[CHR 0x0A]" C arbitrary: b x rule: join_with.induct)
  case 1
  then show ?case by simp
next
  case (2 c)
  show ?case using setf_skel[of x b c False] by (simp add: chunk_def)
next
  case (3 c d ds)
  let ?J = "join_with [CHR 0x0A] (d # ds)"
  have "skel True ?J = setf True (skel True ?J)" by (simp add: skel_True)
  also have "\<dots> = setf True (concat (map chunk (d # ds)))" by (rule 3)
  also have "\<dots> = concat (map chunk (d # ds))" by (rule setf_True_concat_chunk)
  finally have J: "skel True ?J = concat (map chunk (d # ds))" .
  have s: "skel b (join_with [CHR 0x0A] (c # d # ds)) = skel b c @ skel True ?J"
    by (simp add: skel_append newline_space)
  have e: "skel b c = [] \<longleftrightarrow> chunk c = []"
    using skel_Nil_iff[of b c False] by (simp add: chunk_def)
  have f: "setf x (skel b c) = setf x (chunk c)"
    using setf_skel[of x b c False] by (simp add: chunk_def)
  show ?case unfolding s J using e f by (simp add: setf_append)
qed

lemma replace_all_raise: "list_all2 raise s (replace_all m toUpperCase prev s)"
proof (induction "length s" arbitrary: s prev rule: less_induct)
  case less
  show ?case
  proof (cases s)
    case Nil
    then show ?thesis by simp
  next
    case (Cons c cs)
    show ?thesis
    proof (cases "m prev (c # cs)")
      case None
      with less[of cs "Some c"] Cons show ?thesis by (simp add: raise_refl)
    next
      case (Some n)
      show ?thesis
      proof (cases "n = 0")
        case True
        with Some less[of cs "Some c"] Cons show ?thesis by (simp add: raise_refl)
      next
        case False
        have "length (drop n (c # cs)) < length s" using False Cons by simp
        from less[OF this] have
          ih: "list_all2 raise (drop n (c # cs))
                 (replace_all m toUpperCase (Some (last (take n (c # cs)))) (drop n (c # cs)))" .
        have u: "list_all2 raise (take n (c # cs)) (toUpperCase (take n (c # cs)))"
          unfolding toUpperCase_def by (simp add: list_all2_map2 list_all2_same raise_def)
        have "list_all2 raise (take n (c # cs) @ drop n (c # cs))
                (toUpperCase (take n (c # cs))
                 @ replace_all m toUpperCase (Some (last (take n (c # cs)))) (drop n (c # cs)))"
          using u ih by (rule list_all2_appendI)
        with Some False Cons show ?thesis by (simp del: take_Suc_Cons drop_Suc_Cons)
      qed
    qed
  qed
qed

lemma fix_on_raise: "list_all2 raise c (fix_on defaults c)"
proof -
  have "replace_all re_on (\<lambda>_. onKeyword defaults) None c = replace_all re_on toUpperCase None c"
    using fix_on_as_map[of defaults c] by (simp add: defaults_def toUpperCase_def[abs_def])
  then show ?thesis
    unfolding fix_on_def by (simp add: replace_all_raise list_all2_same raise_refl)
qed

lemma concat_chunk_filter:
  "concat (map chunk (filter (\<lambda>c. c \<noteq> []) C)) = concat (map chunk C)"
  by (induction C) simp_all

lemma output_skeleton:
  assumes "segment M = Inr C"
  shows "list_all2 fr (concat (map chunk (flatp M))) (chunk (assemble defaults C))"
proof -
  let ?C = "filter (\<lambda>c. c \<noteq> []) C"
  have "list_all2 (list_all2 raise) ?C (map (fix_on defaults) ?C)"
    by (simp add: list_all2_map2 list_all2_same fix_on_raise)
  then have "list_all2 raise (join_with [CHR 0x0A] ?C) (assemble defaults C)"
    unfolding assemble_def by (rule join_raise)
  from skel_raise[OF this, of False]
  have "list_all2 fr (setf True (skel False (join_with [CHR 0x0A] ?C))) (chunk (assemble defaults C))"
    unfolding chunk_def by (intro setf_fr) simp
  moreover have "setf True (skel False (join_with [CHR 0x0A] ?C)) = concat (map chunk (flatp M))"
    unfolding skel_join concat_chunk_filter segment_chunks[OF assms]
    by (rule setf_True_concat_chunk)
  ultimately show ?thesis by simp
qed

subsection \<open>The shape of a split\<close>

lemma last_before_Nil [simp]: "last_before p [] = p"
  by (simp add: last_before_def)

lemma last_before_Cons [simp]: "last_before p (c # u) = last_before (Some c) u"
  by (simp add: last_before_def)

lemma nomatch_Nil [simp]: "nomatch m p [] rest"
  by (simp add: nomatch_def)

lemma nomatch_Cons:
  assumes "m p (c # a @ rest) = None \<or> m p (c # a @ rest) = Some 0"
    and "nomatch m (Some c) a rest"
  shows "nomatch m p (c # a) rest"
  unfolding nomatch_def
proof (intro allI impI)
  fix u v assume uv: "c # a = u @ v \<and> v \<noteq> []"
  show "m (last_before p u) (v @ rest) = None \<or> m (last_before p u) (v @ rest) = Some 0"
  proof (cases u)
    case Nil
    with uv have "v = c # a" by simp
    with Nil assms(1) show ?thesis by simp
  next
    case (Cons d u')
    with uv have "d = c" "a = u' @ v" by simp_all
    with assms(2) uv Cons show ?thesis unfolding nomatch_def by simp
  qed
qed

lemma isplit_cons:
  assumes "isplit m (Some c) cs L" and "m p (c # cs) = None \<or> m p (c # cs) = Some 0"
  shows "isplit m p (c # cs) ((c # hd L) # tl L)"
  using assms(1)
proof (cases rule: isplit.cases)
  case (isplit_last)
  with assms(2) have "nomatch m p (c # cs) []" by (intro nomatch_Cons) simp_all
  with isplit_last show ?thesis by (simp add: isplit.isplit_last)
next
  case (isplit_step a w r n L')
  have "nomatch m p (c # a) (w @ r)"
    using assms(2) isplit_step(1,3) by (intro nomatch_Cons) simp_all
  from isplit.isplit_step[OF this, of n L'] isplit_step
  show ?thesis by simp
qed

lemma isplit_split: "isplit m p s (split_from m p [] s)"
proof (induction "length s" arbitrary: s p rule: less_induct)
  case less
  show ?case
  proof (cases s)
    case Nil
    then show ?thesis by (simp add: isplit_last)
  next
    case (Cons c cs)
    have ih: "isplit m (Some c) cs (split_from m (Some c) [] cs)"
      using less[of cs "Some c"] Cons by simp
    have acc: "split_from m (Some c) [c] cs
        = (c # hd (split_from m (Some c) [] cs)) # tl (split_from m (Some c) [] cs)"
      using split_from_acc[of m "Some c" "[c]" cs] by simp
    show ?thesis
    proof (cases "m p (c # cs) = None \<or> m p (c # cs) = Some 0")
      case True
      then have "split_from m p [] (c # cs) = split_from m (Some c) [c] cs" by auto
      with acc isplit_cons[OF ih True] Cons show ?thesis by simp
    next
      case False
      then obtain n where n: "m p (c # cs) = Some n" "n > 0" by auto
      let ?w = "take n (c # cs)" and ?r = "drop n (c # cs)"
      have wne: "?w \<noteq> []" using n(2) by simp
      have "length ?r < length s" using n(2) Cons by simp
      from less[OF this] have ih2: "isplit m (Some (last ?w)) ?r (split_from m (Some (last ?w)) [] ?r)" .
      have "isplit m p ([] @ ?w @ ?r) ([] # ?w # split_from m (Some (last ?w)) [] ?r)"
        by (rule isplit_step[OF _ _ n(2) _ wne ih2]) (simp_all add: n(1))
      moreover have "split_from m p [] (c # cs) = [] # ?w # split_from m (Some (last ?w)) [] ?r"
        using n by simp
      ultimately show ?thesis using Cons by simp
    qed
  qed
qed

subsection \<open>A piece between two matches is never a keyword\<close>

lemma shp_last: "shp k0 ks \<Longrightarrow> is_word (last (k0 # ks))"
  by (induction ks arbitrary: k0) auto

lemma kwshape_ends:
  assumes "kwshape k"
  shows "k \<noteq> []" "is_word (hd k)" "is_word (last k)"
proof -
  from assms obtain k0 ks where k: "k = k0 # ks" "is_word k0" "shp k0 ks"
    by (auto simp: kwshape_def split: list.splits)
  show "k \<noteq> []" "is_word (hd k)" using k by simp_all
  show "is_word (last k)" unfolding k(1) by (rule shp_last[OF k(3)])
qed

lemma upper_ends:
  assumes "toUpperCase t = k" "k \<noteq> []" "is_word (hd k)" "is_word (last k)"
  shows "t \<noteq> []" "is_word (hd t)" "is_word (last t)"
proof -
  show t: "t \<noteq> []" using assms(1,2) by (auto simp: toUpperCase_def)
  have "hd k = to_upper (hd t)" using assms(1) t by (auto simp: toUpperCase_def hd_map)
  with assms(3) show "is_word (hd t)" by (simp add: is_word_upper)
  have "last k = to_upper (last t)" using assms(1) t by (auto simp: toUpperCase_def last_map)
  with assms(4) show "is_word (last t)" by (simp add: is_word_upper)
qed

lemma re_words_wb: "re_words ks q s = Some n \<Longrightarrow> word_boundary q s"
  by (simp add: re_words_def split: if_splits)

lemma match_info:
  assumes good: "goodks ks" and m: "re_words ks q (w @ r) = Some n" and t: "take n (w @ r) = w"
  shows "toUpperCase w \<in> set ks" "word_boundary q (w @ r)" "word_boundary (Some (last w)) r"
    "w \<noteq> []" "is_word (hd w)" "is_word (last w)"
proof -
  from re_words_Some[OF m] obtain k where k: "k \<in> set ks" "n = length k" "match_ci k q (w @ r)"
    by blast
  from good k(1) have up: "toUpperCase k = k" "k \<noteq> []" and sh: "kwshape k"
    by (auto simp: goodks_def upper_words_def)
  from k(3) obtain w0 r0 where w0: "w @ r = w0 @ r0" "length w0 = length k"
    "toUpperCase w0 = toUpperCase k" "word_boundary (last_before q w0) r0"
    unfolding match_ci_iff by blast
  have "w = take n (w0 @ r0)" using t w0(1) by simp
  then have ww: "w = w0" using w0(2) k(2) by simp
  with w0(1) have rr: "r = r0" by simp
  from w0(3) ww up(1) have u: "toUpperCase w = k" by simp
  show "toUpperCase w \<in> set ks" using u k(1) by simp
  show "word_boundary q (w @ r)" by (rule re_words_wb[OF m])
  note e = upper_ends[OF u kwshape_ends[OF sh]]
  show "w \<noteq> []" "is_word (hd w)" "is_word (last w)" by (rule e)+
  show "word_boundary (Some (last w)) r"
    using w0(4) ww rr e(1) by (simp add: last_before_def)
qed

lemma trim_decomp: "\<exists>sp1 sp2. a = sp1 @ trim a @ sp2 \<and> blank sp1 \<and> blank sp2"
proof -
  let ?d = "dropWhile is_space a"
  have 1: "a = takeWhile is_space a @ ?d" by simp
  have 2: "?d = trim a @ rev (takeWhile is_space (rev ?d))"
    unfolding trim_def by (metis rev_append rev_rev_ident takeWhile_dropWhile_id)
  have "a = takeWhile is_space a @ trim a @ rev (takeWhile is_space (rev ?d))"
    using 1 2 by metis
  moreover have "blank (takeWhile is_space a)" by (rule blank_takeWhile)
  moreover have "blank (rev (takeWhile is_space (rev ?d)))" by (rule blank_rev_takeWhile)
  ultimately show ?thesis by blast
qed

lemma trim_id:
  assumes "s \<noteq> []" "\<not> is_space (hd s)" "\<not> is_space (last s)"
  shows "trim s = s"
proof -
  have 1: "dropWhile is_space s = s" using assms(1,2) by (cases s) auto
  have "dropWhile is_space (rev s) = rev s"
    using assms(1,3) by (cases "rev s") (auto simp: last_rev[symmetric] hd_rev)
  with 1 show ?thesis by (simp add: trim_def)
qed

lemma wb_space_word:
  "blank sp \<Longrightarrow> sp \<noteq> [] \<Longrightarrow> is_word c \<Longrightarrow> word_boundary (Some (last sp)) (c # s)"
  using word_not_space[of "last sp"]
  by (auto simp: word_boundary_def blank_def)

lemma wb_word_space:
  "blank sp \<Longrightarrow> sp \<noteq> [] \<Longrightarrow> is_word c \<Longrightarrow> word_boundary (Some c) (sp @ s)"
  using word_not_space[of "hd sp"]
  by (cases sp) (auto simp: word_boundary_def blank_def)

lemma text_not_key:
  assumes good: "goodks ks" and nm: "nomatch (re_words ks) p a rest"
    and start: "\<not> wordp p \<or> word_boundary p (a @ rest)"
    and endc: "rest = [] \<or> word_boundary (last_before p a) rest"
  shows "toUpperCase (trim a) \<notin> set ks"
proof
  assume key: "toUpperCase (trim a) \<in> set ks"
  let ?t = "trim a" and ?k = "toUpperCase (trim a)"
  from good key have up: "toUpperCase ?k = ?k" "?k \<noteq> []" and sh: "kwshape ?k"
    by (auto simp: goodks_def upper_words_def)
  note e = upper_ends[OF refl kwshape_ends[OF sh]]
  obtain sp1 sp2 where d: "a = sp1 @ ?t @ sp2" "blank sp1" "blank sp2"
    using trim_decomp[of a] by blast
  obtain c t0 where t: "?t = c # t0" using e(1) by (cases ?t) auto
  with e(2) have wc: "is_word c" by simp
  let ?q = "last_before p sp1"
  let ?s = "?t @ sp2 @ rest"
  have wb1: "word_boundary ?q ?s"
  proof (cases "sp1 = []")
    case False
    then show ?thesis
      using wb_space_word[OF d(2) False wc] t by (simp add: last_before_def)
  next
    case True
    from start show ?thesis
    proof
      assume "\<not> wordp p"
      with True wc t show ?thesis by (simp add: word_boundary_Cons)
    next
      assume w: "word_boundary p (a @ rest)"
      have "a @ rest = ?s" using d(1) True by (metis append_Nil append_assoc)
      with w True show ?thesis by simp
    qed
  qed
  have wb2: "word_boundary (Some (last ?t)) (sp2 @ rest)"
  proof (cases "sp2 = []")
    case False
    show ?thesis by (rule wb_word_space[OF d(3) False e(3)])
  next
    case True
    from endc show ?thesis
    proof
      assume "rest = []"
      with True e(3) show ?thesis by (simp add: word_boundary_def)
    next
      assume w: "word_boundary (last_before p a) rest"
      have "last_before p a = Some (last ?t)"
        using d(1) True e(1) by (metis append_Nil2 append_is_Nil_conv last_appendR last_before_def)
      with w True show ?thesis by simp
    qed
  qed
  have "match_ci ?k ?q ?s"
    unfolding match_ci_iff
  proof (intro exI conjI)
    show "?s = ?t @ (sp2 @ rest)" by simp
    show "length ?t = length ?k" by (simp add: toUpperCase_def)
    show "toUpperCase ?t = toUpperCase ?k" by (simp add: up(1))
    show "word_boundary (last_before ?q ?t) (sp2 @ rest)"
      using wb2 e(1) by (simp add: last_before_def)
  qed
  then have "find (\<lambda>k. match_ci k ?q ?s) ks \<noteq> None"
    using key by (auto simp: find_None_iff)
  then obtain k' where f: "find (\<lambda>k. match_ci k ?q ?s) ks = Some k'" by auto
  then have "k' \<in> set ks" by (auto simp: find_Some_iff)
  with good have "k' \<noteq> []" by (auto simp: goodks_def upper_words_def)
  with f wb1 have r: "re_words ks ?q ?s = Some (length k')" "length k' > 0"
    by (simp_all add: re_words_def)
  have "?t @ sp2 \<noteq> []" using e(1) by simp
  with nm d(1) have "re_words ks ?q ((?t @ sp2) @ rest) = None \<or> re_words ks ?q ((?t @ sp2) @ rest) = Some 0"
    unfolding nomatch_def by (metis append_assoc)
  with r show False by simp
qed

subsection \<open>Word boundaries at the cuts\<close>

lemma goodks_main: "goodks MAIN_KEYWORDS"
  unfolding goodks_def by (rule conjI; code_simp)

lemma goodks_joins: "goodks JOINS"
  unfolding goodks_def by (rule conjI; code_simp)

lemma goodks_keywords: "goodks keywords_list"
  unfolding goodks_def by (rule conjI; code_simp)

lemma goodks_on: "goodks [''ON'']"
  unfolding goodks_def by (rule conjI; code_simp)

lemma re_join_words: "re_join = re_words JOINS"
  by (auto simp: fun_eq_iff re_join_def re_words_def JOINS_def JOIN_QUALIFIERS_def)

lemma isplit_class:
  assumes good: "goodks ks"
  shows "isplit (re_words ks) p s L \<Longrightarrow> \<not> wordp p \<or> word_boundary p s
     \<Longrightarrow> (\<forall>a\<in>set (evens L). toUpperCase (trim a) \<notin> set ks)
         \<and> (\<forall>w\<in>set (odds L). toUpperCase w \<in> set ks \<and> trim w = w \<and> w \<noteq> [])"
proof (induction "re_words ks" p s L rule: isplit.induct)
  case (isplit_last p a)
  have "toUpperCase (trim a) \<notin> set ks"
    by (rule text_not_key[OF good isplit_last(1)]) (use isplit_last(2) in simp_all)
  then show ?case by simp
next
  case (isplit_step p a w r n L)
  note mi = match_info[OF good isplit_step(2) isplit_step(4)]
  have 1: "toUpperCase (trim a) \<notin> set ks"
    by (rule text_not_key[OF good isplit_step(1)]) (use isplit_step(8) mi(2) in simp_all)
  have 2: "trim w = w"
    using mi(4,5,6) word_not_space by (intro trim_id) auto
  have 3: "\<not> wordp (Some (last w)) \<or> word_boundary (Some (last w)) r" using mi(3) by simp
  from isplit_step(7)[OF 3] 1 2 mi(1,4) show ?case by simp
qed

lemma isplit_cuts:
  assumes good: "goodks ks"
  shows "isplit (re_words ks) p s L \<Longrightarrow> p = None \<or> (u \<noteq> [] \<and> p = Some (last u))
     \<Longrightarrow> cut1 u s \<Longrightarrow> cuts_ok u L"
proof (induction "re_words ks" p s L arbitrary: u rule: isplit.induct)
  case (isplit_last p a)
  then show ?case by simp
next
  case (isplit_step p a w r n L)
  note mi = match_info[OF good isplit_step(2) isplit_step(4)]
  obtain c w0 where w: "w = c # w0" using mi(4) by (cases w) auto
  have c1: "cut1 u a"
    using isplit_step(9) by (cases "a = []") (auto simp: cut1_def)
  have c2: "cut1 (u @ a) w"
  proof (cases "a = []")
    case True
    with isplit_step(9) mi(4) show ?thesis by (auto simp: cut1_def)
  next
    case False
    with mi(2) w show ?thesis
      by (auto simp: cut1_def word_boundary_Cons last_before_def wordp_def)
  qed
  have c3: "cut1 (u @ a @ w) r"
    using mi(3,4) by (cases r) (auto simp: cut1_def word_boundary_Cons wordp_def)
  have "cuts_ok ((u @ a) @ w) L"
    using isplit_step(7)[of "(u @ a) @ w"] c3 mi(4) by simp
  with c1 c2 show ?case by simp
qed

lemma cuts_ok_append: "cuts_ok u (A @ B) = (cuts_ok u A \<and> cuts_ok (u @ concat A) B)"
  by (induction A arbitrary: u) auto

lemma concat_sub_pieces: "concat (sub_pieces part) = part"
  by (simp add: sub_pieces_def concat_split_re)

lemma sub_cuts: "cut1 u part \<Longrightarrow> cuts_ok u (sub_pieces part)"
  using isplit_cuts[OF goodks_joins isplit_split[of "re_words JOINS" None part], of u]
  by (simp add: sub_pieces_def split_re_def re_join_words)

lemma flat_cuts_gen: "cuts_ok u parts \<Longrightarrow> cuts_ok u (concat (map sub_pieces parts))"
  by (induction parts arbitrary: u) (simp_all add: cuts_ok_append sub_cuts concat_sub_pieces)

lemma flat_cuts: "cuts_ok [] (flatp s)"
proof -
  have "cuts_ok [] (split_re re_main s)"
    using isplit_cuts[OF goodks_main isplit_split[of "re_words MAIN_KEYWORDS" None s], of "[]"]
    by (simp add: split_re_def re_main_def cut1_def)
  then show ?thesis unfolding flatp_def by (rule flat_cuts_gen)
qed

lemma concat_flatp: "concat (flatp s) = s"
proof -
  have "\<And>parts. concat (concat (map sub_pieces parts)) = concat parts"
  proof -
    fix parts :: "string list"
    show "concat (concat (map sub_pieces parts)) = concat parts"
      by (induction parts) (simp_all add: concat_sub_pieces)
  qed
  then show ?thesis by (simp add: flatp_def concat_split_re)
qed

subsection \<open>The cuts on the skeleton; the keyword stage applied twice\<close>

lemma concat_chunks: "concat (chunks b ps) = skel b (concat ps)"
  by (induction ps arbitrary: b) (simp_all add: skel_append)

lemma length_chunks [simp]: "length (chunks b ps) = length ps"
  by (induction ps arbitrary: b) simp_all

lemma skel_True_head: "skel True s = (f, c) # xs \<Longrightarrow> f"
  by (induction s) (auto split: if_splits)

lemma skel_head_False:
  assumes "skel b p = (False, c) # xs"
  shows "\<not> b \<and> p \<noteq> [] \<and> hd p = c"
proof (cases p)
  case Nil
  with assms show ?thesis by simp
next
  case (Cons d ds)
  show ?thesis
  proof (cases "is_space d")
    case True
    with assms Cons have "skel True ds = (False, c) # xs" by simp
    from skel_True_head[OF this] show ?thesis by simp
  next
    case False
    with assms Cons show ?thesis by simp
  qed
qed

lemma pend_False_last: "\<not> pend b u \<Longrightarrow> u \<noteq> [] \<Longrightarrow> \<not> is_space (last u)"
  by (induction u arbitrary: b) (auto split: if_splits)

lemma lastc_skel_last:
  assumes "u \<noteq> []" "\<not> is_space (last u)"
  shows "lastc q (skel b u) = Some (last u)"
proof -
  have "u = butlast u @ [last u]" using assms(1) by simp
  with lastc_skel_snoc[OF assms(2), of q b "butlast u"] show ?thesis by simp
qed

lemma cuts_chunks:
  "cuts_ok u ps \<Longrightarrow> cutoks (lastc None (skel False u)) (chunks (pend False u) ps)"
proof (induction ps arbitrary: u)
  case Nil
  then show ?case by simp
next
  case (Cons p ps)
  from Cons.prems have c1: "cut1 u p" and c2: "cuts_ok (u @ p) ps" by simp_all
  let ?q = "lastc None (skel False u)" and ?b = "pend False u"
  have ok: "cutok ?q (skel ?b p)"
  proof (cases "skel ?b p")
    case Nil
    then show ?thesis by (simp add: cutok_def)
  next
    case (Cons x xs)
    obtain f c where x: "x = (f, c)" by (cases x)
    show ?thesis
    proof (cases f)
      case True
      with Cons x show ?thesis by (simp add: cutok_def)
    next
      case False
      with Cons x have "skel ?b p = (False, c) # xs" by simp
      from skel_head_False[OF this] have h: "\<not> ?b" "p \<noteq> []" "hd p = c" by simp_all
      show ?thesis
      proof (cases "u = []")
        case True
        with Cons x show ?thesis by (simp add: cutok_def)
      next
        case F: False
        from pend_False_last[OF h(1) F] have ns: "\<not> is_space (last u)" .
        from lastc_skel_last[OF F ns] have q: "?q = Some (last u)" .
        from c1 F h(2,3) have "\<not> (is_word (last u) \<and> is_word c)" by (simp add: cut1_def)
        with Cons x q show ?thesis by (simp add: cutok_def)
      qed
    qed
  qed
  have "cutoks (lastc None (skel False (u @ p))) (chunks (pend False (u @ p)) ps)"
    by (rule Cons.IH[OF c2])
  then have "cutoks (lastc ?q (skel ?b p)) (chunks (pend ?b p) ps)"
    by (simp add: skel_append lastc_append pend_append)
  with ok show ?case by simp
qed

lemma length_skel: "length (skel b p) = length (chunk p)"
  using setf_skel[of True b p False] length_setf[of True "skel b p"]
  by (simp add: chunk_def)

lemma setf_True_skel: "setf True (skel b p) = chunk p"
  using setf_skel[of True b p False] by (simp add: chunk_def)

lemma raise_word: "raise c c' \<Longrightarrow> c' = c \<or> (is_word c \<and> is_word c')"
proof -
  have "to_upper c \<noteq> c \<Longrightarrow> is_word c"
    by (cases c) (auto simp: to_upper_bits is_word_bits split: if_splits)
  moreover assume "raise c c'"
  ultimately show ?thesis by (auto simp: raise_def is_word_upper)
qed

lemma raise_upper: "list_all2 raise s t \<Longrightarrow> toUpperCase t = toUpperCase s"
  by (induction rule: list_all2_induct) (simp_all add: toUpperCase_def raise_props)

lemma raise_upper_fixed:
  "list_all2 raise s t \<Longrightarrow> toUpperCase s = s \<Longrightarrow> t = s"
proof (induction rule: list_all2_induct)
  case Nil
  then show ?case by simp
next
  case (Cons c s c' t)
  then have "to_upper c = c" "toUpperCase s = s" by (simp_all add: toUpperCase_def)
  with Cons show ?case by (auto simp: raise_def)
qed

lemma wb_raise:
  assumes "oraise p p'" "list_all2 raise s t"
  shows "word_boundary p s = word_boundary p' t"
proof -
  have 1: "wordp p' = wordp p" by (rule oraise_wordp[OF assms(1)])
  show ?thesis
  proof (cases s)
    case Nil
    with assms(2) 1 show ?thesis by (simp add: word_boundary_def wordp_def)
  next
    case (Cons c cs)
    with assms(2) obtain c' ts where t: "t = c' # ts" "raise c c'"
      by (auto simp: list_all2_Cons1)
    with Cons 1 raise_props(2)[OF t(2)] show ?thesis by (simp add: word_boundary_Cons)
  qed
qed

lemma last_before_raise:
  assumes "oraise p p'" "list_all2 raise s t"
  shows "oraise (last_before p s) (last_before p' t)"
proof (cases "s = []")
  case True
  with assms show ?thesis by (simp add: last_before_def)
next
  case False
  with assms(2) have "t \<noteq> []" by auto
  moreover have "raise (last s) (last t)" by (rule list_all2_last[OF assms(2) False])
  ultimately show ?thesis using False by (simp add: last_before_def oraise_def)
qed

lemma replaced_upper:
  assumes uw: "upper_words ks" and of: "overlap_free ks"
    and h: "replace_all (re_words ks) toUpperCase None s = a @ b"
      "re_words ks (last_before None a) b = Some n" "0 < n"
  shows "toUpperCase (take n b) = take n b"
proof -
  let ?t = "replace_all (re_words ks) toUpperCase None s"
  have r: "list_all2 raise s ?t" by (rule replace_all_raise)
  from re_words_Some[OF h(2)] obtain k where
    k: "k \<in> set ks" "n = length k" "match_ci k (last_before None a) b" by blast
  from uw k(1) have up: "toUpperCase k = k" by (simp add: upper_words_def)
  from k(3) obtain w' r' where w': "b = w' @ r'" "length w' = length k"
    "toUpperCase w' = toUpperCase k" "word_boundary (last_before (last_before None a) w') r'"
    unfolding match_ci_iff by blast
  have tn: "take n b = w'" using w'(1,2) k(2) by simp
  have wne: "w' \<noteq> []" using w'(2) k(2) h(3) by auto
  from r h(1) w'(1) have "list_all2 raise s (a @ w' @ r')" by simp
  then obtain xs s1 where s1: "s = xs @ s1" "list_all2 raise xs a" "list_all2 raise s1 (w' @ r')"
    by (auto simp: list_all2_append2)
  then obtain w ys where s2: "s1 = w @ ys" "list_all2 raise w w'" "list_all2 raise ys r'"
    by (auto simp: list_all2_append2)
  have lw: "length w = n" "length xs = length a"
    using s2(2) s1(2) w'(2) k(2) by (auto dest: list_all2_lengthD)
  have wn: "w \<noteq> []" using lw(1) h(3) by auto
  have uk: "toUpperCase w \<in> set ks"
    using raise_upper[OF s2(2)] w'(3) up k(1) by simp
  have o0: "oraise (last_before None xs) (last_before None a)"
    by (rule last_before_raise[OF _ s1(2)]) (simp add: oraise_def)
  have b1: "word_boundary (last_before None xs) (w @ ys)"
    using wb_raise[OF o0, of "w @ ys" b] s1(3) s2(1) w'(1) re_words_wb[OF h(2)] by simp
  have o1: "oraise (Some (last w)) (Some (last w'))"
    using list_all2_last[OF s2(2) wn] by (simp add: oraise_def)
  have b2: "word_boundary (Some (last w)) ys"
    using wb_raise[OF o1 s2(3)] w'(4) wne by (simp add: last_before_def)
  from replace_words_covers[OF uw of uk b2 b1, of to_upper]
  have "take (length w) (drop (length xs) (replace_all (re_words ks) toUpperCase None (xs @ w @ ys)))
          = toUpperCase w"
    by (simp add: toUpperCase_def[abs_def])
  then have "take n (drop (length a) (a @ b)) = toUpperCase w"
    using s1(1) s2(1) h(1) lw by simp
  then have "w' = toUpperCase w" using tn by simp
  then show "toUpperCase (take n b) = take n b" using tn by (simp add: toUpperCase_idem)
qed

lemma replace_words_idem:
  assumes uw: "upper_words ks" and of: "overlap_free ks"
  shows "replace_all (re_words ks) toUpperCase None (replace_all (re_words ks) toUpperCase None s)
           = replace_all (re_words ks) toUpperCase None s"
  by (rule replace_all_id) (rule replaced_upper[OF uw of])

lemma tidy_raise: "list_all2 raise s t \<Longrightarrow> tidy b s \<Longrightarrow> tidy b t"
proof (induction s arbitrary: b t)
  case Nil
  then show ?case by simp
next
  case (Cons c cs)
  from Cons.prems(1) obtain c' t0 where t: "t = c' # t0" "raise c c'" "list_all2 raise cs t0"
    by (auto simp: list_all2_Cons1)
  note r = raise_props[OF t(2)]
  show ?case
  proof (cases "is_space c")
    case True
    with Cons.prems(2) have c: "c = CHR '' ''" "\<not> b" "tidy True cs" by simp_all
    from t(2) c(1) have "c' = CHR '' ''" by (auto simp: raise_def upper_of_blank)
    with Cons.IH[OF t(3) c(3)] c(2) t(1) show ?thesis by (simp add: blank_space)
  next
    case False
    with Cons.prems(2) have "tidy False cs" by simp
    with Cons.IH[OF t(3) this] False r t(1) show ?thesis by simp
  qed
qed

subsection \<open>Respacing the output piece by piece\<close>

lemma punct_not_word:
  "\<not> is_word CHR '',''" "\<not> is_word CHR ''(''" "\<not> is_word CHR '')''"
  "\<not> is_word CHR ''=''" "\<not> is_word CHR ''<''" "\<not> is_word CHR ''>''" "\<not> is_word CHR ''!''"
  by code_simp+

lemma raise_eq_punct: "raise c c' \<Longrightarrow> \<not> is_word x \<Longrightarrow> (c' = x) = (c = x)"
  using raise_word[of c c'] by auto

lemma raise_operator: "raise c c' \<Longrightarrow> is_operator c' = is_operator c"
  unfolding is_operator_def
  using raise_eq_punct[of c c' "CHR ''=''"] raise_eq_punct[of c c' "CHR ''<''"]
    raise_eq_punct[of c c' "CHR ''>''"] raise_eq_punct[of c c' "CHR ''!''"] punct_not_word
  by simp

lemma oraise_eq_punct: "oraise q q' \<Longrightarrow> \<not> is_word x \<Longrightarrow> (q' = Some x) = (q = Some x)"
  using raise_eq_punct by (cases q) (auto simp: oraise_def)

lemma oraise_isopq: "oraise q q' \<Longrightarrow> isopq q' = isopq q"
  using raise_operator by (cases q) (auto simp: oraise_def isopq_def)

lemma oraise_None: "oraise q q' \<Longrightarrow> (q' = None) = (q = None)"
  by (cases q) (auto simp: oraise_def)

lemma Rn_raise:
  assumes "oraise q q'" "raise c c'"
  shows "Rn q' c' b = Rn q c b"
  unfolding Rn_def Rx_def Rop_def unlead_def
  using oraise_eq_punct[OF assms(1)] raise_eq_punct[OF assms(2)] punct_not_word(1,2,3)
    oraise_isopq[OF assms(1)] raise_operator[OF assms(2)] oraise_None[OF assms(1)]
  by simp

lemma En_raise: "oraise q q' \<Longrightarrow> En q' = En q"
  unfolding En_def Ex_def Eop_def
  using oraise_eq_punct[of q q'] punct_not_word(1,2,3) oraise_isopq[of q q']
  by simp

lemma Rn_idem: "Rn q c (Rn q c b) = Rn q c b"
  by (auto simp: Rn_def Rx_def Rop_def unlead_def)

lemma Rn_None: "Rn None c b = Rn None c b'"
  by (auto simp: Rn_def Rx_def Rop_def unlead_def)

lemma respace_idem: "respace Rn q (respace Rn q xs) = respace Rn q xs"
  by (simp add: respace_respace Rn_idem)

lemma length_respace [simp]: "length (respace R q xs) = length xs"
  by (induction xs arbitrary: q) auto

lemma respace_Rn_setf: "respace Rn None (setf b xs) = respace Rn None xs"
  using Rn_None by (cases xs) (auto simp: setf_def)

lemma respace_fr_stable:
  "list_all2 fr xs ys \<Longrightarrow> oraise q q' \<Longrightarrow> respace Rn q xs = xs \<Longrightarrow> respace Rn q' ys = ys"
proof (induction xs arbitrary: q q' ys)
  case Nil
  then show ?case by simp
next
  case (Cons x xs)
  obtain f c where x: "x = (f, c)" by (cases x)
  from Cons.prems(1) obtain y ys' where y0: "ys = y # ys'" "fr x y" "list_all2 fr xs ys'"
    by (cases ys) auto
  with x obtain c' where y: "ys = (f, c') # ys'" "raise c c'" "list_all2 fr xs ys'"
    by (cases y) (auto simp: fr_def)
  from Cons.prems(3) x have s: "Rn q c f = f" "respace Rn (Some c) xs = xs" by simp_all
  have o: "oraise (Some c) (Some c')" using y(2) by (simp add: oraise_def)
  from Cons.IH[OF y(3) o s(2)] Rn_raise[OF Cons.prems(2) y(2), of f] s(1) y(1)
  show ?case by simp
qed

lemma lastc_raise:
  "list_all2 (\<lambda>x y. raise (snd x) (snd y)) xs ys \<Longrightarrow> oraise q q'
     \<Longrightarrow> oraise (lastc q xs) (lastc q' ys)"
proof (induction xs arbitrary: q q' ys)
  case Nil
  then show ?case by simp
next
  case (Cons x xs)
  obtain f c where x: "x = (f, c)" by (cases x)
  from Cons.prems(1) x obtain g c' ys' where y: "ys = (g, c') # ys'" "raise c c'"
    "list_all2 (\<lambda>x y. raise (snd x) (snd y)) xs ys'"
    by (auto simp: list_all2_Cons1)
  have o: "oraise (Some c) (Some c')" using y(2) by (simp add: oraise_def)
  from Cons.IH[OF y(3) o] x y(1) show ?case by simp
qed

lemma fr_snd: "list_all2 fr xs ys \<Longrightarrow> list_all2 (\<lambda>x y. raise (snd x) (snd y)) xs ys"
  by (erule list_all2_mono) (simp add: fr_def)

lemma setf_snd:
  "list_all2 (\<lambda>x y. raise (snd x) (snd y)) (setf b xs) ys
     \<Longrightarrow> list_all2 (\<lambda>x y. raise (snd x) (snd y)) xs ys"
  by (cases xs) (auto simp: list_all2_Cons1)

lemma skrel_fr: "list_all2 fr xs ys \<Longrightarrow> skrel q xs ys"
proof (induction xs arbitrary: q ys)
  case Nil
  then show ?case by simp
next
  case (Cons x xs)
  from Cons.prems obtain y ys' where y: "ys = y # ys'" "fr x y" "list_all2 fr xs ys'"
    by (cases ys) auto
  obtain f c where x: "x = (f, c)" by (cases x)
  obtain g c' where yy: "y = (g, c')" by (cases y)
  from Cons.IH[OF y(3), of "Some c"] y(1,2) x yy show ?case by (simp add: fr_def)
qed

lemma skrel_Nil: "skrel q [] ys \<Longrightarrow> ys = []"
  by (cases ys) auto

lemma skrel_append:
  "skrel q xs ys \<Longrightarrow> skrel (lastc q xs) xs' ys' \<Longrightarrow> skrel q (xs @ xs') (ys @ ys')"
proof (induction xs arbitrary: q ys)
  case Nil
  then show ?case using skrel_Nil[of q ys] by simp
next
  case (Cons x xs)
  obtain f c where x: "x = (f, c)" by (cases x)
  from Cons.prems(1) obtain y ys0 where y: "ys = y # ys0" by (cases ys) auto
  obtain g c' where yy: "y = (g, c')" by (cases y)
  from Cons.prems x y yy have "skrel (Some c) xs ys0" "skrel (lastc (Some c) xs) xs' ys'" by simp_all
  from Cons.IH[OF this] Cons.prems(1) x y yy show ?case by simp
qed

lemma chunk1:
  assumes stab: "respace Rn q M = M" and cut: "cutok q M"
    and rel: "list_all2 fr (setf True M) Y" and o: "oraise q q'"
  shows "crel M (respace Rn q' Y) \<and> skrel q M (respace Rn q' Y)"
proof (cases M)
  case Nil
  with rel show ?thesis by (simp add: crel_def)
next
  case (Cons x M')
  obtain f c where x: "x = (f, c)" by (cases x)
  from rel Cons x obtain y Y' where Y0: "Y = y # Y'" "fr (True, c) y" "list_all2 fr M' Y'"
    by (cases Y) auto
  then obtain c' where Y: "Y = (True, c') # Y'" "raise c c'" "list_all2 fr M' Y'"
    by (cases y) (auto simp: fr_def)
  from stab Cons x have s: "Rn q c f = f" "respace Rn (Some c) M' = M'" by simp_all
  have o1: "oraise (Some c) (Some c')" using Y(2) by (simp add: oraise_def)
  have t: "respace Rn (Some c') Y' = Y'" by (rule respace_fr_stable[OF Y(3) o1 s(2)])
  let ?g = "Rn q c True"
  have X: "respace Rn q' Y = (?g, c') # Y'"
    unfolding Y(1) using t Rn_raise[OF o Y(2), of True] by simp
  have 1: "crel M (respace Rn q' Y)"
    unfolding X Cons x crel_def using Y(2,3) by (simp add: fr_def)
  have h: "?g = f \<or> (\<not> f \<and> ?g \<and> hz q c)"
  proof (cases f)
    case True
    with s(1) show ?thesis by simp
  next
    case False
    show ?thesis
    proof (cases ?g)
      case F2: False
      with False show ?thesis by simp
    next
      case True
      have "q \<noteq> None"
      proof
        assume "q = None"
        with s(1) False True Rn_None[of c True False] show False by simp
      qed
      then obtain a where q: "q = Some a" by auto
      from cut Cons x False q have "\<not> (is_word a \<and> is_word c)" by (simp add: cutok_def)
      with False True q show ?thesis by (simp add: hz_def)
    qed
  qed
  have 2: "skrel q M (respace Rn q' Y)"
    unfolding X Cons x using h Y(2) skrel_fr[OF Y(3), of "Some c"] by simp
  from 1 2 show ?thesis by simp
qed

lemma chunk_respace:
  "respace Rn q (concat Ms) = concat Ms \<Longrightarrow> cutoks q Ms
     \<Longrightarrow> list_all2 fr (concat (map (setf True) Ms)) Y \<Longrightarrow> oraise q q'
     \<Longrightarrow> \<exists>Xs. respace Rn q' Y = concat Xs \<and> list_all2 crel Ms Xs
            \<and> skrel q (concat Ms) (concat Xs)"
proof (induction Ms arbitrary: q q' Y)
  case Nil
  then show ?case by simp
next
  case (Cons M Ms)
  from Cons.prems(3) obtain Y1 Y2 where Y: "Y = Y1 @ Y2" "list_all2 fr (setf True M) Y1"
    "list_all2 fr (concat (map (setf True) Ms)) Y2"
    by (auto simp: list_all2_append1)
  have "respace Rn q M @ respace Rn (lastc q M) (concat Ms) = M @ concat Ms"
    using Cons.prems(1) by (simp add: respace_append)
  then have s: "respace Rn q M = M" "respace Rn (lastc q M) (concat Ms) = concat Ms"
    by (simp_all add: append_eq_append_conv)
  from Cons.prems(2) have c: "cutok q M" "cutoks (lastc q M) Ms" by simp_all
  have o1: "oraise (lastc q M) (lastc q' Y1)"
    by (rule lastc_raise[OF setf_snd[OF fr_snd[OF Y(2)]] Cons.prems(4)])
  from Cons.IH[OF s(2) c(2) Y(3) o1] obtain Xs where
    Xs: "respace Rn (lastc q' Y1) Y2 = concat Xs" "list_all2 crel Ms Xs"
    "skrel (lastc q M) (concat Ms) (concat Xs)" by blast
  let ?X = "respace Rn q' Y1"
  from chunk1[OF s(1) c(1) Y(2) Cons.prems(4)] have X: "crel M ?X" "skrel q M ?X" by simp_all
  have "respace Rn q' Y = concat (?X # Xs)"
    unfolding Y(1) using Xs(1) by (simp add: respace_append lastc_respace)
  moreover have "list_all2 crel (M # Ms) (?X # Xs)" using X(1) Xs(2) by simp
  moreover have "skrel q (concat (M # Ms)) (concat (?X # Xs))"
    using skrel_append[OF X(2) Xs(3)] by simp
  ultimately show ?case by blast
qed

lemma srel_of_skrel:
  "nsl xs \<Longrightarrow> endok q \<Longrightarrow> skrel q xs ys
     \<Longrightarrow> srel q (rend xs @ (if e then '' '' else [])) (rend ys @ (if e then '' '' else []))"
proof (induction xs arbitrary: q ys)
  case Nil
  then have "ys = []" by (cases ys) auto
  then show ?case
    by (auto intro: srel.srel_Nil srel.srel_Keep simp: raise_refl)
next
  case (Cons x xs)
  obtain f c where x: "x = (f, c)" by (cases x)
  from Cons.prems(3) obtain y ys' where y: "ys = y # ys'" by (cases ys) auto
  obtain g c' where yy: "y = (g, c')" by (cases y)
  from Cons.prems(1) x have ns: "\<not> is_space c" "nsl xs" by (simp_all add: nsl_Cons)
  from Cons.prems(3) x y yy have r: "raise c c'" and sk: "skrel (Some c) xs ys'"
    and h: "g = f \<or> (\<not> f \<and> g \<and> hz q c)"
    by simp_all
  have e: "endok (Some c)" using ns(1) by (simp add: endok_def)
  let ?A = "rend xs @ (if e then '' '' else [])" and ?B = "rend ys' @ (if e then '' '' else [])"
  have ih: "srel (Some c) ?A ?B" by (rule Cons.IH[OF ns(2) e sk])
  have k: "\<And>p. srel p (c # ?A) (c' # ?B)" by (rule srel.srel_Keep[OF r ih])
  show ?case
  proof (cases f)
    case True
    with h have g by simp
    have "srel q (CHR '' '' # c # ?A) (CHR '' '' # c' # ?B)"
      by (rule srel.srel_Keep[OF raise_refl k])
    with True \<open>g\<close> x y yy show ?thesis by simp
  next
    case False
    show ?thesis
    proof (cases g)
      case F2: False
      with False x y yy k[of q] show ?thesis by simp
    next
      case True
      with h False obtain a where q: "q = Some a" "\<not> (is_word a \<and> is_word c)"
        by (cases q) (auto simp: hz_def)
      from Cons.prems(2) q(1) have "\<not> is_space a" by (simp add: endok_def)
      with q ns(1) have "harmless q c" by (simp add: harmless_def)
      from srel.srel_Ins[OF this r ih] True False x y yy show ?thesis by simp
    qed
  qed
qed

subsection \<open>The keyword stage leaves the second normalization as it is\<close>

lemma srel_at:
  "srel p s t \<Longrightarrow> t = a' @ c' # t' \<Longrightarrow> is_word c' \<Longrightarrow> oraise p p'
     \<Longrightarrow> \<exists>a c s'. s = a @ c # s' \<and> raise c c' \<and> srel (Some c) s' t'
            \<and> wordp (last_before p a) = wordp (last_before p' a')"
proof (induction p s t arbitrary: a' p' rule: srel.induct)
  case (srel_Nil p)
  then show ?case by simp
next
  case (srel_End p)
  then have "c' = CHR '' ''" by (cases a') auto
  with srel_End(3) blank_not_word show ?case by simp
next
  case (srel_Keep d d' s0 t0 p)
  show ?case
  proof (cases a')
    case Nil
    with srel_Keep(4) have e: "c' = d'" "t' = t0" by simp_all
    have "d # s0 = [] @ d # s0 \<and> raise d c' \<and> srel (Some d) s0 t'
        \<and> wordp (last_before p []) = wordp (last_before p' a')"
      using srel_Keep(1,2) e Nil oraise_wordp[OF srel_Keep(6)] by simp
    then show ?thesis by blast
  next
    case (Cons e a'')
    with srel_Keep(4) have t0: "t0 = a'' @ c' # t'" and e: "e = d'" by simp_all
    have o: "oraise (Some d) (Some d')" using srel_Keep(1) by (simp add: oraise_def)
    from srel_Keep(3)[OF t0 srel_Keep(5) o] obtain a c s' where
      r: "s0 = a @ c # s'" "raise c c'" "srel (Some c) s' t'"
      "wordp (last_before (Some d) a) = wordp (last_before (Some d') a'')" by blast
    have "d # s0 = (d # a) @ c # s' \<and> raise c c' \<and> srel (Some c) s' t'
        \<and> wordp (last_before p (d # a)) = wordp (last_before p' a')"
      using r Cons e by simp
    then show ?thesis by blast
  qed
next
  case (srel_Ins p d d' s0 t0)
  show ?case
  proof (cases a')
    case Nil
    with srel_Ins(5) have "c' = CHR '' ''" by simp
    with srel_Ins(6) blank_not_word show ?thesis by simp
  next
    case (Cons e a1)
    with srel_Ins(5) have e: "e = CHR '' ''" and t1: "d' # t0 = a1 @ c' # t'" by simp_all
    show ?thesis
    proof (cases a1)
      case Nil
      with t1 have c: "c' = d'" "t' = t0" by simp_all
      have "is_word d" using srel_Ins(6) c(1) raise_props(2)[OF srel_Ins(2)] by simp
      from harmless_wordp[OF srel_Ins(1) this]
      have "wordp (last_before p []) = wordp (last_before p' a')"
        using Cons Nil e by (simp add: wordp_def blank_not_word)
      then have "d # s0 = [] @ d # s0 \<and> raise d c' \<and> srel (Some d) s0 t'
        \<and> wordp (last_before p []) = wordp (last_before p' a')"
        using srel_Ins(2,3) c by simp
      then show ?thesis by blast
    next
      case C2: (Cons e2 a2)
      with t1 have t0: "t0 = a2 @ c' # t'" and e2: "e2 = d'" by simp_all
      have o: "oraise (Some d) (Some d')" using srel_Ins(2) by (simp add: oraise_def)
      from srel_Ins(4)[OF t0 srel_Ins(6) o] obtain a c s' where
        r: "s0 = a @ c # s'" "raise c c'" "srel (Some c) s' t'"
        "wordp (last_before (Some d) a) = wordp (last_before (Some d') a2)" by blast
      have "d # s0 = (d # a) @ c # s' \<and> raise c c' \<and> srel (Some c) s' t'
        \<and> wordp (last_before p (d # a)) = wordp (last_before p' a')"
        using r Cons C2 e e2 by simp
      then show ?thesis by blast
    qed
  qed
qed

lemma srel_upper_fixed:
  assumes good: "goodks ks" and of: "overlap_free ks"
    and sr: "srel None (replace_all (re_words ks) toUpperCase None s) t"
  shows "replace_all (re_words ks) toUpperCase None t = t"
proof (rule replace_all_id)
  let ?s = "replace_all (re_words ks) toUpperCase None s"
  fix a' b' n
  assume h: "t = a' @ b'" "re_words ks (last_before None a') b' = Some n" "0 < n"
  from good have uw: "upper_words ks" and sh: "\<forall>k\<in>set ks. kwshape k" by (simp_all add: goodks_def)
  from re_words_Some[OF h(2)] obtain k where
    k: "k \<in> set ks" "n = length k" "match_ci k (last_before None a') b'" by blast
  from sh k(1) have ksh: "kwshape k" by simp
  then obtain k0 ks0 where kk: "k = k0 # ks0" "shp k0 ks0"
    by (auto simp: kwshape_def split: list.splits)
  from k(3) kk obtain c' t' where b': "b' = c' # t'" by (cases b') auto
  have wc: "is_word c'" using match_ci_needs_word[OF ksh k(3)[unfolded b']] .
  have o: "oraise None None" by (simp add: oraise_def)
  from srel_at[OF sr h(1)[unfolded b'] wc o] obtain a c s' where
    r: "?s = a @ c # s'" "raise c c'" "srel (Some c) s' t'"
    "wordp (last_before None a) = wordp (last_before None a')" by blast
  have m: "re_words ks (last_before None a) (c # s') = Some n"
    using re_words_transfer[OF sh r(2,3), of "last_before None a" "last_before None a'"] r(4) h(2) b'
    by simp
  have up: "toUpperCase (take n (c # s')) = take n (c # s')"
    by (rule replaced_upper[OF uw of r(1) m h(3)])
  from re_words_Some[OF m] obtain k' where
    k': "k' \<in> set ks" "n = length k'" "match_ci k' (last_before None a) (c # s')" by blast
  from sh k'(1) have "kwshape k'" by simp
  then obtain k0' ks0' where kk': "k' = k0' # ks0'" "shp k0' ks0'"
    by (auto simp: kwshape_def split: list.splits)
  have n: "n = Suc (length ks0')" using k'(2) kk'(1) by simp
  from peel[OF kk'(2) r(2,3) k'(3)[unfolded kk'(1)]]
  have "list_all2 raise (take n (c # s')) (take n (c' # t'))" unfolding n by simp
  from raise_upper_fixed[OF this up] up
  show "toUpperCase (take n b') = take n b'" unfolding b' by simp
qed

subsection \<open>The second normalization\<close>

lemma keyword_case_defaults:
  "keyword_case defaults s = replace_all (re_words keywords_list) toUpperCase None s"
  by (simp add: keyword_case_def defaults_def falsy_def keywordRegex_def)

lemma first_pass:
  fixes x :: string
  defines "M1 \<equiv> keyword_case defaults (normalize defaults x)"
  shows "tidy False M1" "respace Rn None (skel False M1) = skel False M1"
    "pend False M1 = En (lastc None (skel False M1))"
proof -
  let ?M0 = "normalize defaults x"
  note n = normalize_skel[of x]
  have r: "list_all2 raise ?M0 M1"
    unfolding M1_def keyword_case_defaults by (rule replace_all_raise)
  note sr = skel_raise[OF r, of False]
  from n r show "tidy False M1" by (auto intro: tidy_raise)
  have s0: "respace Rn None (skel False ?M0) = skel False ?M0"
    using n by (simp add: respace_idem)
  have o: "oraise None None" by (simp add: oraise_def)
  from sr have fr: "list_all2 fr (skel False ?M0) (skel False M1)" by simp
  show "respace Rn None (skel False M1) = skel False M1"
    by (rule respace_fr_stable[OF fr o s0])
  have "oraise (lastc None (skel False ?M0)) (lastc None (skel False M1))"
    by (rule lastc_raise[OF fr_snd[OF fr] o])
  from En_raise[OF this] have "En (lastc None (skel False M1)) = En (lastc None (skel False ?M0))" .
  also have "\<dots> = En (lastc None (skel False x))" using n by (simp add: lastc_respace)
  also have "\<dots> = pend False ?M0" using n by simp
  also have "\<dots> = pend False M1" using sr by simp
  finally show "pend False M1 = En (lastc None (skel False M1))" by simp
qed

lemma map_setf_chunks: "map (setf True) (chunks b ps) = map chunk ps"
  by (induction ps arbitrary: b) (simp_all add: setf_True_skel)

lemma skrel_snd: "skrel q xs ys \<Longrightarrow> list_all2 (\<lambda>x y. raise (snd x) (snd y)) xs ys"
proof (induction xs arbitrary: q ys)
  case Nil
  then show ?case using skrel_Nil[of q ys] by simp
next
  case (Cons x xs)
  obtain f c where x: "x = (f, c)" by (cases x)
  from Cons.prems obtain y ys' where y: "ys = y # ys'" by (cases ys) auto
  obtain g c' where yy: "y = (g, c')" by (cases y)
  from Cons.prems x y yy have "raise c c'" "skrel (Some c) xs ys'" by simp_all
  with Cons.IH[of "Some c" ys'] x y yy show ?case by simp
qed

lemma second_normal:
  fixes x :: string
  defines "M1 \<equiv> keyword_case defaults (normalize defaults x)"
  assumes seg: "segment M1 = Inr C1"
  defines "N0 \<equiv> normalize defaults (assemble defaults C1)"
  shows "\<exists>Xs. skel False N0 = concat Xs \<and> list_all2 crel (chunks False (flatp M1)) Xs"
    "srel None M1 N0" "tidy False N0"
proof -
  let ?y = "assemble defaults C1"
  let ?Ms = "chunks False (flatp M1)"
  note f = first_pass[of x, folded M1_def]
  note n = normalize_skel[of ?y, folded N0_def]
  show "tidy False N0" using n by simp
  have cM: "concat ?Ms = skel False M1" by (simp add: concat_chunks concat_flatp)
  have stab: "respace Rn None (concat ?Ms) = concat ?Ms" unfolding cM by (rule f(2))
  have cuts: "cutoks None ?Ms" using cuts_chunks[OF flat_cuts[of M1]] by simp
  have rel: "list_all2 fr (concat (map (setf True) ?Ms)) (chunk ?y)"
    unfolding map_setf_chunks by (rule output_skeleton[OF seg])
  have o: "oraise None None" by (simp add: oraise_def)
  from chunk_respace[OF stab cuts rel o] obtain Xs where
    Xs: "respace Rn None (chunk ?y) = concat Xs" "list_all2 crel ?Ms Xs"
    "skrel None (concat ?Ms) (concat Xs)" by blast
  have sN: "skel False N0 = respace Rn None (chunk ?y)"
    using n by (simp add: chunk_def respace_Rn_setf)
  with Xs show "\<exists>Xs. skel False N0 = concat Xs \<and> list_all2 crel ?Ms Xs" by auto
  have sk: "skrel None (skel False M1) (skel False N0)" using Xs(1,3) sN cM by simp
  have "oraise (lastc None (skel False M1)) (lastc None (skel False N0))"
    by (rule lastc_raise[OF skrel_snd[OF sk] o])
  from En_raise[OF this] have "En (lastc None (skel False N0)) = pend False M1" using f(3) by simp
  moreover have "lastc None (skel False N0) = lastc None (skel False ?y)"
    using n by (simp add: lastc_respace)
  ultimately have pe: "pend False N0 = pend False M1" using n by simp
  have e: "endok None" by (simp add: endok_def)
  from srel_of_skrel[OF nsl_skel e sk, of "pend False M1"]
  show "srel None M1 N0"
    using tidy_rend[OF f(1)] tidy_rend[OF \<open>tidy False N0\<close>] pe by simp
qed

lemma second_case:
  fixes x :: string
  defines "M1 \<equiv> keyword_case defaults (normalize defaults x)"
  assumes seg: "segment M1 = Inr C1"
  defines "N0 \<equiv> normalize defaults (assemble defaults C1)"
  shows "keyword_case defaults N0 = N0"
  unfolding keyword_case_defaults
proof (rule srel_upper_fixed[OF goodks_keywords keywords_overlap_free])
  show "srel None (replace_all (re_words keywords_list) toUpperCase None (normalize defaults x)) N0"
    using second_normal(2)[OF seg[unfolded M1_def]]
    unfolding N0_def keyword_case_defaults .
qed

subsection \<open>The pieces of both passes, with their kinds\<close>

lemma jstep_blank: "trim p = [] \<Longrightarrow> jstep st p = st"
  by (simp add: jstep_def)

lemma foldl_jstep_blank: "\<forall>p\<in>set ps. trim p = [] \<Longrightarrow> foldl jstep st ps = st"
  by (induction ps arbitrary: st) (simp_all add: jstep_blank)

lemma foldl_fstep_False: "foldl fstep st (map (Pair False) ps) = foldl jstep st ps"
  by (induction ps arbitrary: st) (simp_all add: fstep_def)

lemma main_no_empty: "[] \<notin> set MAIN_KEYWORDS"
  by code_simp

lemma mstep_tagged: "mstep st part = foldl fstep st (tagged part)"
proof (cases "trim part = []")
  case True
  then have b: "blank part" by (simp add: trim_Nil_blank)
  have "\<forall>p\<in>set (split_re re_join part). trim p = []"
  proof
    fix p assume "p \<in> set (split_re re_join part)"
    with b have "blank p" using blank_concat[of "split_re re_join part" p]
      by (simp add: concat_split_re)
    then show "trim p = []" by (simp add: trim_Nil_blank)
  qed
  from foldl_jstep_blank[OF this] True main_no_empty show ?thesis
    by (simp add: mstep_def tagged_def foldl_fstep_False toUpperCase_def)
next
  case False
  then show ?thesis
    by (simp add: mstep_def tagged_def foldl_fstep_False fstep_def)
qed

lemma foldl_mstep_tagged: "foldl mstep st parts = foldl fstep st (concat (map tagged parts))"
  by (induction parts arbitrary: st) (simp_all add: mstep_tagged)

lemma segment_tflat:
  "segment s = Inr (push_current (foldl fstep \<lparr> result = [], currentPart = [] \<rparr> (tflat s)))"
  by (simp add: segment_foldl foldl_mstep_tagged tflat_def)

lemma sub_pieces_tagged: "sub_pieces part = map snd (tagged part)"
  by (simp add: sub_pieces_def tagged_def comp_def)

lemma flatp_tflat: "flatp s = map snd (tflat s)"
  unfolding flatp_def tflat_def map_concat map_map comp_def sub_pieces_tagged ..

lemma tagged_tfl:
  "(\<forall>a\<in>set (evens L). toUpperCase (trim a) \<notin> set MAIN_KEYWORDS)
   \<Longrightarrow> (\<forall>w\<in>set (odds L). toUpperCase (trim w) \<in> set MAIN_KEYWORDS)
   \<Longrightarrow> concat (map tagged L) = tfl L"
  by (induction L rule: tfl.induct) (simp_all add: tagged_def)

lemma main_class:
  "(\<forall>a\<in>set (evens (split_re re_main s)). toUpperCase (trim a) \<notin> set MAIN_KEYWORDS)
   \<and> (\<forall>w\<in>set (odds (split_re re_main s)).
         toUpperCase w \<in> set MAIN_KEYWORDS \<and> trim w = w \<and> w \<noteq> [])"
  using isplit_class[OF goodks_main isplit_split[of "re_words MAIN_KEYWORDS" None s]]
  by (simp add: split_re_def re_main_def wordp_def)

lemma tflat_tfl: "tflat s = tfl (split_re re_main s)"
  unfolding tflat_def using main_class[of s] by (intro tagged_tfl) auto

lemma srel_None:
  assumes "srel p s t"
  shows "srel None s t"
  using assms
proof (cases rule: srel.cases)
  case srel_Nil
  then show ?thesis by (simp add: srel.srel_Nil)
next
  case srel_End
  then show ?thesis by (simp add: srel.srel_End endok_def)
next
  case (srel_Keep c c' s0 t0)
  then show ?thesis by (simp add: srel.srel_Keep)
next
  case (srel_Ins c c' s0 t0)
  then have "harmless None c" by (simp add: harmless_def)
  with srel_Ins show ?thesis by (simp add: srel.srel_Ins)
qed

lemma raise_srel: "list_all2 raise w w' \<Longrightarrow> srel q w w'"
  by (induction w arbitrary: q w')
     (auto simp: list_all2_Cons1 intro: srel.srel_Nil srel.srel_Keep)

lemma pieces_rel_all: "pieces_rel p J J' \<Longrightarrow> list_all2 (\<lambda>s t. \<exists>q. srel q s t) J J'"
proof (induction p J J' rule: pieces_rel.induct)
  case (1 p L')
  then show ?case by simp
next
  case (2 p a L')
  then show ?case by (auto split: list.splits)
next
  case (3 p a w L L')
  from 3(2) obtain a' w' L'' where L': "L' = a' # w' # L''" "srel p a a'" "w \<noteq> []"
    "list_all2 raise w w'" "pieces_rel (Some (last w)) L L''"
    by (auto split: list.splits)
  from 3(1)[OF L'(1) refl] L'(5) have "list_all2 (\<lambda>s t. \<exists>q. srel q s t) L L''" by simp
  with L' raise_srel[OF L'(4)] show ?case by auto
qed

lemma join_lockstep:
  assumes "srel p a a'"
  shows "list_all2 R0 (map (Pair False) (split_re re_join a)) (map (Pair False) (split_re re_join a'))"
proof -
  have sh: "\<forall>k\<in>set JOINS. kwshape k" using goodks_joins by (simp add: goodks_def)
  have o: "oraise None None" by (simp add: oraise_def)
  from split_lockstep[OF sh srel_None[OF assms] o] pieces_rel_all
  have "list_all2 (\<lambda>s t. \<exists>q. srel q s t) (split_re re_join a) (split_re re_join a')"
    by (simp add: split_re_def re_join_words)
  then show ?thesis by (simp add: list_all2_map1 list_all2_map2 R0_def)
qed

lemma tfl_lockstep: "pieces_rel p L L' \<Longrightarrow> list_all2 R0 (tfl L) (tfl L')"
proof (induction p L L' rule: pieces_rel.induct)
  case (1 p L')
  then show ?case by simp
next
  case (2 p a L')
  then obtain a' where "L' = [a']" "srel p a a'" by (auto split: list.splits)
  with join_lockstep[of p a a'] show ?case by simp
next
  case (3 p a w L L')
  from 3(2) obtain a' w' L'' where L': "L' = a' # w' # L''" "srel p a a'" "w \<noteq> []"
    "list_all2 raise w w'" "pieces_rel (Some (last w)) L L''"
    by (auto split: list.splits)
  from 3(1)[OF L'(1) refl] L'(5) have ih: "list_all2 R0 (tfl L) (tfl L'')" by simp
  have "R0 (True, w) (True, w')" using raise_srel[OF L'(4)] by (auto simp: R0_def)
  with ih join_lockstep[OF L'(2)] L'(1) show ?case by (simp add: list_all2_appendI)
qed

lemma tflat_lockstep:
  assumes "srel None s t"
  shows "list_all2 R0 (tflat s) (tflat t)"
proof -
  have sh: "\<forall>k\<in>set MAIN_KEYWORDS. kwshape k" using goodks_main by (simp add: goodks_def)
  have o: "oraise None None" by (simp add: oraise_def)
  from split_lockstep[OF sh assms o]
  have "pieces_rel None (split_re re_main s) (split_re re_main t)"
    by (simp add: split_re_def re_main_def)
  then show ?thesis unfolding tflat_tfl by (rule tfl_lockstep)
qed

subsection \<open>The pieces of both passes agree up to letter case\<close>

lemma map_snd_skel: "map snd (skel b s) = non_space s"
  by (induction s arbitrary: b) (auto simp: non_space_def)

lemma length_skel_ns: "length (skel b s) = length (non_space s)"
  using map_snd_skel[of b s] by (metis length_map)

lemma srel_non_space: "srel q s t \<Longrightarrow> list_all2 raise (non_space s) (non_space t)"
proof (induction rule: srel.induct)
  case (srel_Nil p)
  then show ?case by (simp add: non_space_def)
next
  case (srel_End p)
  then show ?case by (simp add: non_space_def blank_space)
next
  case (srel_Keep c c' s t p)
  then show ?case using raise_props(3)[of c c'] by (simp add: non_space_Cons)
next
  case (srel_Ins p c c' s t)
  then show ?case
    using raise_props(3)[of c c'] by (simp add: non_space_Cons blank_space harmless_def)
qed

lemma lengths_chunks: "map length (chunks b ps) = map (\<lambda>p. length (non_space p)) ps"
  by (induction ps arbitrary: b) (simp_all add: length_skel_ns)

lemma concat_eq_lengths:
  "concat As = concat Bs \<Longrightarrow> map length As = map length Bs \<Longrightarrow> As = Bs"
proof (induction As arbitrary: Bs)
  case Nil
  then show ?case by simp
next
  case (Cons A As)
  from Cons.prems(2) obtain B Bs' where B: "Bs = B # Bs'" "length A = length B"
    "map length As = map length Bs'" by (cases Bs) auto
  with Cons.prems(1) have "A = B" "concat As = concat Bs'" by simp_all
  with Cons.IH[OF this(2) B(3)] B(1) show ?case by simp
qed

lemma crel_length: "crel M X \<Longrightarrow> length M = length X"
  unfolding crel_def by (drule list_all2_lengthD) simp

lemma chunks_rel:
  "list_all2 crel (chunks b ps) (chunks b' qs)
     \<Longrightarrow> list_all2 (\<lambda>p q. list_all2 fr (chunk p) (chunk q)) ps qs"
proof (induction ps arbitrary: b b' qs)
  case Nil
  then show ?case by (cases qs) simp_all
next
  case (Cons p ps)
  from Cons.prems obtain q qs' where q: "qs = q # qs'" by (cases qs) auto
  with Cons.prems have c: "crel (skel b p) (skel b' q)"
    "list_all2 crel (chunks (pend b p) ps) (chunks (pend b' q) qs')" by simp_all
  from c(1) have "list_all2 fr (chunk p) (chunk q)" by (simp add: crel_def setf_True_skel)
  with Cons.IH[OF c(2)] q show ?case by simp
qed

lemma alignment:
  assumes sk: "skel False t = concat Xs" and cr: "list_all2 crel (chunks False ps) Xs"
    and len: "list_all2 (\<lambda>p q. length (non_space p) = length (non_space q)) ps qs"
    and cq: "concat qs = t"
  shows "list_all2 (\<lambda>p q. list_all2 fr (chunk p) (chunk q)) ps qs"
proof -
  have 1: "concat (chunks False qs) = concat Xs" using sk cq by (simp add: concat_chunks)
  have "map length (chunks False ps) = map length Xs"
    using cr crel_length by (induction rule: list_all2_induct) auto
  moreover have "map (\<lambda>p. length (non_space p)) ps = map (\<lambda>p. length (non_space p)) qs"
    using len by (induction rule: list_all2_induct) auto
  ultimately have 2: "map length (chunks False qs) = map length Xs"
    by (simp add: lengths_chunks)
  from concat_eq_lengths[OF 1 2] cr show ?thesis by (intro chunks_rel[of False ps False qs]) simp
qed

lemma tidy_False: "tidy b s \<Longrightarrow> tidy False s"
  by (cases s) (auto split: if_splits)

lemma tidy_append: "tidy b (u @ v) \<Longrightarrow> tidy b u \<and> tidy False v"
proof (induction u arbitrary: b)
  case Nil
  then show ?case using tidy_False by simp
next
  case (Cons c u)
  then show ?case by (auto split: if_splits)
qed

lemma tidy_concat: "tidy b (concat ps) \<Longrightarrow> p \<in> set ps \<Longrightarrow> tidy False p"
proof (induction ps arbitrary: b)
  case Nil
  then show ?case by simp
next
  case (Cons a ps)
  from Cons.prems(1) have t: "tidy b a" "tidy False (concat ps)"
    using tidy_append[of b a "concat ps"] by simp_all
  from Cons.prems(2) have "p = a \<or> p \<in> set ps" by simp
  then show ?case
  proof
    assume "p = a"
    with t(1) show ?thesis using tidy_False by simp
  next
    assume "p \<in> set ps"
    from Cons.IH[OF t(2) this] show ?thesis .
  qed
qed

lemma respace_unlead_None: "respace unlead None xs = setf False xs"
  by (cases xs) (auto simp: unlead_def respace_unlead_Some)

lemma trim_tidy:
  assumes "tidy False s"
  shows "trim s = rend (setf False (chunk s))"
proof -
  have "trim s = trim (rend (skel False s) @ (if pend False s then '' '' else []))"
    using tidy_rend[OF assms] by simp
  also have "\<dots> = rend (respace unlead None (skel False s))"
    by (rule trim_rend[OF nsl_skel])
  finally show ?thesis by (simp add: respace_unlead_None chunk_def)
qed

lemma rend_fr: "list_all2 fr xs ys \<Longrightarrow> list_all2 raise (rend xs) (rend ys)"
  by (induction rule: list_all2_induct) (auto simp: fr_def raise_refl)

lemma trim_fr:
  assumes "tidy False p" "tidy False q" "list_all2 fr (chunk p) (chunk q)"
  shows "list_all2 raise (trim p) (trim q)"
  unfolding trim_tidy[OF assms(1)] trim_tidy[OF assms(2)]
  by (rule rend_fr[OF setf_fr[OF assms(3)]])

lemma tfl_keys: "(True, p) \<in> set (tfl L) \<Longrightarrow> p \<in> set (odds L)"
  by (induction L rule: tfl.induct) auto

lemma tflat_keys: "(True, p) \<in> set (tflat s) \<Longrightarrow> trim p = p"
  using tfl_keys[of p "split_re re_main s"] main_class[of s] by (auto simp: tflat_tfl)

subsection \<open>The clauses of both passes agree up to letter case\<close>

lemma aligned:
  fixes x :: string
  defines "M1 \<equiv> keyword_case defaults (normalize defaults x)"
  assumes seg: "segment M1 = Inr C1"
  defines "N0 \<equiv> normalize defaults (assemble defaults C1)"
  shows "list_all2 RT (tflat M1) (tflat N0)"
proof -
  note sn = second_normal[OF seg[unfolded M1_def], folded M1_def N0_def]
  note fp = first_pass[of x, folded M1_def]
  from sn(1) obtain Xs where Xs: "skel False N0 = concat Xs"
    "list_all2 crel (chunks False (flatp M1)) Xs" by blast
  have L0: "list_all2 R0 (tflat M1) (tflat N0)" by (rule tflat_lockstep[OF sn(2)])
  have "list_all2 (\<lambda>kp kq. length (non_space (snd kp)) = length (non_space (snd kq)))
          (tflat M1) (tflat N0)"
  proof (rule list_all2_mono[OF L0])
    fix kp kq assume "R0 kp kq"
    then obtain q where "srel q (snd kp) (snd kq)" by (auto simp: R0_def)
    from srel_non_space[OF this]
    show "length (non_space (snd kp)) = length (non_space (snd kq))" by (rule list_all2_lengthD)
  qed
  then have len: "list_all2 (\<lambda>p q. length (non_space p) = length (non_space q)) (flatp M1) (flatp N0)"
    by (simp add: flatp_tflat list_all2_map1 list_all2_map2)
  have al: "list_all2 (\<lambda>p q. list_all2 fr (chunk p) (chunk q)) (flatp M1) (flatp N0)"
    by (rule alignment[OF Xs len concat_flatp])
  have le: "length (tflat M1) = length (tflat N0)" using L0 by (rule list_all2_lengthD)
  show ?thesis
  proof (rule list_all2_all_nthI[OF le])
    fix i assume i: "i < length (tflat M1)"
    with le have i': "i < length (tflat N0)" by simp
    let ?kp = "tflat M1 ! i" and ?kq = "tflat N0 ! i"
    from L0 i have k: "fst ?kp = fst ?kq" by (auto simp: list_all2_conv_all_nth R0_def)
    have p: "flatp M1 ! i = snd ?kp" "flatp N0 ! i = snd ?kq"
      using i i' by (simp_all add: flatp_tflat)
    have "i < length (flatp M1)" using i by (simp add: flatp_tflat)
    from list_all2_nthD[OF al this]
    have "list_all2 fr (chunk (flatp M1 ! i)) (chunk (flatp N0 ! i))" .
    then have c: "list_all2 fr (chunk (snd ?kp)) (chunk (snd ?kq))" unfolding p .
    have "snd ?kp \<in> set (flatp M1)" "snd ?kq \<in> set (flatp N0)"
      using i i' p by (metis flatp_tflat length_map nth_mem)+
    then have t: "tidy False (snd ?kp)" "tidy False (snd ?kq)"
      using tidy_concat[of False "flatp M1"] tidy_concat[of False "flatp N0"] fp(1) sn(3)
      by (simp_all add: concat_flatp)
    have r: "list_all2 raise (trim (snd ?kp)) (trim (snd ?kq))" by (rule trim_fr[OF t c])
    have "fst ?kp \<longrightarrow> trim (snd ?kp) = snd ?kp \<and> trim (snd ?kq) = snd ?kq"
    proof
      assume f: "fst ?kp"
      then have "(True, snd ?kp) \<in> set (tflat M1)"
        using i nth_mem[OF i] by (metis prod.collapse)
      moreover from f k have "(True, snd ?kq) \<in> set (tflat N0)"
        using nth_mem[OF i'] by (metis prod.collapse)
      ultimately show "trim (snd ?kp) = snd ?kp \<and> trim (snd ?kq) = snd ?kq"
        using tflat_keys by blast
    qed
    with k r show "RT ?kp ?kq" by (simp add: RT_def)
  qed
qed

lemma raise_dropWhile:
  "list_all2 raise s t \<Longrightarrow> list_all2 raise (dropWhile is_space s) (dropWhile is_space t)"
  by (induction rule: list_all2_induct) (auto simp: raise_props)

lemma trim_raise: "list_all2 raise s t \<Longrightarrow> list_all2 raise (trim s) (trim t)"
  unfolding trim_def by (intro raise_dropWhile list_all2_rev1[THEN iffD2]) (simp add: raise_dropWhile)

lemma push_rel:
  assumes "strel st st'"
  shows "list_all2 (list_all2 raise) (push_current st) (push_current st')"
proof -
  from assms have r: "list_all2 (list_all2 raise) (result st) (result st')"
    and c: "list_all2 raise (currentPart st) (currentPart st')" by (simp_all add: strel_def)
  from c have e: "currentPart st = [] \<longleftrightarrow> currentPart st' = []" by auto
  from r trim_raise[OF c] e show ?thesis
    by (auto simp: push_current_def intro: list_all2_appendI)
qed

lemma fstep_rel:
  assumes rt: "RT kp kp'" and st: "strel st st'"
  shows "strel (fstep st kp) (fstep st' kp')"
proof (cases "fst kp")
  case True
  with rt have k: "fst kp'" "list_all2 raise (snd kp) (snd kp')" by (auto simp: RT_def)
  with True push_rel[OF st] show ?thesis by (simp add: fstep_def strel_def)
next
  case False
  with rt have k: "\<not> fst kp'" and r: "list_all2 raise (trim (snd kp)) (trim (snd kp'))"
    by (auto simp: RT_def)
  from r have e: "trim (snd kp) = [] \<longleftrightarrow> trim (snd kp') = []" by auto
  have u: "toUpperCase (trim (snd kp')) = toUpperCase (trim (snd kp))" by (rule raise_upper[OF r])
  from st have c: "list_all2 raise (currentPart st) (currentPart st')"
    and rs: "list_all2 (list_all2 raise) (result st) (result st')" by (simp_all add: strel_def)
  have sp: "list_all2 raise '' '' '' ''" by (simp add: raise_refl)
  have ap: "list_all2 raise (currentPart st @ '' '' @ trim (snd kp))
              (currentPart st' @ '' '' @ trim (snd kp'))"
    by (intro list_all2_appendI c sp r)
  show ?thesis
    using False k e u push_rel[OF st] r rs ap c
    by (simp add: fstep_def jstep_def strel_def Let_def)
qed

lemma foldl_rel:
  "list_all2 RT xs ys \<Longrightarrow> strel st st' \<Longrightarrow> strel (foldl fstep st xs) (foldl fstep st' ys)"
proof (induction xs arbitrary: ys st st')
  case Nil
  then show ?case by simp
next
  case (Cons x xs)
  from Cons.prems(1) obtain y ys' where y: "ys = y # ys'" "RT x y" "list_all2 RT xs ys'"
    by (cases ys) auto
  from Cons.IH[OF y(3) fstep_rel[OF y(2) Cons.prems(2)]] y(1) show ?case by simp
qed

lemma segment_rel:
  assumes "list_all2 RT (tflat s) (tflat t)" "segment s = Inr C" "segment t = Inr D"
  shows "list_all2 (list_all2 raise) C D"
proof -
  have "strel \<lparr> result = [], currentPart = [] \<rparr> \<lparr> result = [], currentPart = [] \<rparr>"
    by (simp add: strel_def)
  from push_rel[OF foldl_rel[OF assms(1) this]] assms(2,3) show ?thesis
    by (simp add: segment_tflat)
qed

subsection \<open>The clauses of the second pass are the lines of the first\<close>

lemma raise_space_fixed: "is_space c \<Longrightarrow> raise c c' \<Longrightarrow> c' = c"
  using raise_word[of c c'] word_not_space[of c] by auto

lemma same_shape:
  "list_all2 raise a b \<Longrightarrow> list_all2 raise a d \<Longrightarrow> non_space b = non_space d \<Longrightarrow> b = d"
proof (induction a arbitrary: b d)
  case Nil
  then show ?case by simp
next
  case (Cons c a)
  from Cons.prems(1) obtain c1 b' where b: "b = c1 # b'" "raise c c1" "list_all2 raise a b'"
    by (auto simp: list_all2_Cons1)
  from Cons.prems(2) obtain c2 d' where d: "d = c2 # d'" "raise c c2" "list_all2 raise a d'"
    by (auto simp: list_all2_Cons1)
  show ?case
  proof (cases "is_space c")
    case True
    from raise_space_fixed[OF True b(2)] raise_space_fixed[OF True d(2)]
    have e: "c1 = c" "c2 = c" by simp_all
    with Cons.prems(3) b(1) d(1) True have "non_space b' = non_space d'"
      by (simp add: non_space_Cons)
    from Cons.IH[OF b(3) d(3) this] e b(1) d(1) show ?thesis by simp
  next
    case False
    then have "\<not> is_space c1" "\<not> is_space c2"
      using raise_props(3)[OF b(2)] raise_props(3)[OF d(2)] by simp_all
    with Cons.prems(3) b(1) d(1) have "c1 = c2" "non_space b' = non_space d'"
      by (simp_all add: non_space_Cons)
    with Cons.IH[OF b(3) d(3)] b(1) d(1) show ?thesis by simp
  qed
qed

lemma raise_ns_len: "list_all2 raise a b \<Longrightarrow> length (non_space b) = length (non_space a)"
  by (induction rule: list_all2_induct) (auto simp: non_space_Cons raise_props)

lemma exact:
  "list_all2 (list_all2 raise) A B \<Longrightarrow> list_all2 (list_all2 raise) A D
     \<Longrightarrow> concat (map non_space B) = concat (map non_space D) \<Longrightarrow> B = D"
proof (induction A arbitrary: B D)
  case Nil
  then show ?case by simp
next
  case (Cons a A)
  from Cons.prems(1) obtain b B' where B: "B = b # B'" "list_all2 raise a b"
    "list_all2 (list_all2 raise) A B'" by (auto simp: list_all2_Cons1)
  from Cons.prems(2) obtain d D' where D: "D = d # D'" "list_all2 raise a d"
    "list_all2 (list_all2 raise) A D'" by (auto simp: list_all2_Cons1)
  have "length (non_space b) = length (non_space d)"
    using raise_ns_len[OF B(2)] raise_ns_len[OF D(2)] by simp
  with Cons.prems(3) B(1) D(1)
  have e: "non_space b = non_space d" "concat (map non_space B') = concat (map non_space D')"
    by simp_all
  from same_shape[OF B(2) D(2) e(1)] Cons.IH[OF B(3) D(3) e(2)] B(1) D(1) show ?case by simp
qed

lemma map_snd_setf: "map snd (setf b xs) = map snd xs"
  by (cases xs) auto

lemma non_space_chunk: "map snd (chunk s) = non_space s"
  by (simp add: chunk_def map_snd_setf map_snd_skel)

lemma non_space_concat: "non_space (concat ps) = concat (map non_space ps)"
  by (induction ps) (simp_all add: non_space_append, simp add: non_space_def)

lemma segment_non_space:
  assumes "segment s = Inr C"
  shows "concat (map non_space C) = non_space s"
proof -
  have "map snd (concat (map chunk C)) = map snd (concat (map chunk (flatp s)))"
    using segment_chunks[OF assms] by simp
  then have "concat (map non_space C) = concat (map non_space (flatp s))"
    by (simp add: map_concat comp_def non_space_chunk)
  then show ?thesis by (simp add: non_space_concat[symmetric] concat_flatp)
qed

lemma non_space_join:
  "non_space (join_with [CHR 0x0A] D) = concat (map non_space D)"
proof (induction "[CHR 0x0A]" D rule: join_with.induct)
  case 1
  then show ?case by (simp add: non_space_def)
next
  case (2 x)
  then show ?case by simp
next
  case (3 x y ys)
  then show ?case by (simp add: non_space_append non_space_Cons newline_space)
qed

lemma non_space_filter:
  "concat (map non_space (filter (\<lambda>c. c \<noteq> []) C)) = concat (map non_space C)"
  by (induction C) (simp_all add: non_space_def)

lemma filter_rel:
  "list_all2 (list_all2 raise) C D
     \<Longrightarrow> list_all2 (list_all2 raise) (filter (\<lambda>c. c \<noteq> []) C) (filter (\<lambda>c. c \<noteq> []) D)"
  by (induction rule: list_all2_induct) auto

lemma fix_on_defaults:
  "fix_on defaults c =
     (if includes_str ''JOIN'' (toUpperCase c)
      then replace_all (re_words [''ON'']) toUpperCase None c else c)"
  using fix_on_as_map[of defaults c]
  by (simp add: fix_on_def defaults_def re_on_def toUpperCase_def[abs_def])

lemma fix_on_idem: "fix_on defaults (fix_on defaults c) = fix_on defaults c"
proof -
  have u: "toUpperCase (fix_on defaults c) = toUpperCase c"
    by (rule raise_upper[OF fix_on_raise])
  show ?thesis
  proof (cases "includes_str ''JOIN'' (toUpperCase c)")
    case True
    then have f: "fix_on defaults c = replace_all (re_words [''ON'']) toUpperCase None c"
      by (simp add: fix_on_defaults)
    have "fix_on defaults (fix_on defaults c)
        = replace_all (re_words [''ON'']) toUpperCase None (fix_on defaults c)"
      using True u by (simp add: fix_on_defaults[of "fix_on defaults c"])
    also have "\<dots> = fix_on defaults c"
      unfolding f by (rule replace_words_idem[OF on_upper on_overlap_free])
    finally show ?thesis .
  next
    case False
    then show ?thesis by (simp add: fix_on_defaults)
  qed
qed

section \<open>The claims\<close>

text \<open>
  C1: the input \<^verbatim>\<open>select id,name,email from users where status=1\<close> with empty options
  is formatted to three lines: keywords in upper case, each comma followed by one space,
  the operator between single spaces, one newline between clauses and none at the end.
\<close>

theorem format_basic_query:
  "formatSqlString ''select id,name,email from users where status=1'' defaults
     = Inr (''SELECT id, name, email'' @ [CHR 0x0A] @ ''FROM users'' @ [CHR 0x0A]
            @ ''WHERE status = 1'')"
  by code_simp

text \<open>
  C2: the keyword-case stage. For every whole-word, case-insensitive occurrence \<open>w\<close> of a
  recognized keyword in the input (between \<open>xs\<close> and \<open>ys\<close>): when \<^verbatim>\<open>keywordCase\<close> is
  \<^verbatim>\<open>upper\<close> or absent (or empty) the stage puts \<open>w\<close> in upper case at its place; when it is
  \<^verbatim>\<open>lower\<close>, in lower case; when it is \<^verbatim>\<open>preserve\<close> the stage returns its input. In every
  case the stage changes nothing but the case of letters.
\<close>

theorem keyword_case_stage:
  "(keyword_at xs w ys \<and> (keywordCase opts = Some ''upper'' \<or> falsy (keywordCase opts)) \<longrightarrow>
      take (length w) (drop (length xs) (keyword_case opts (xs @ w @ ys))) = toUpperCase w)
   \<and> (keyword_at xs w ys \<and> keywordCase opts = Some ''lower'' \<longrightarrow>
      take (length w) (drop (length xs) (keyword_case opts (xs @ w @ ys))) = toLowerCase w)
   \<and> (keywordCase opts = Some ''preserve'' \<longrightarrow> keyword_case opts s = s)
   \<and> toUpperCase (keyword_case opts s) = toUpperCase s"
proof (intro conjI impI)
  assume "keyword_at xs w ys \<and> (keywordCase opts = Some ''upper'' \<or> falsy (keywordCase opts))"
  then show "take (length w) (drop (length xs) (keyword_case opts (xs @ w @ ys))) = toUpperCase w"
    using keyword_slice[of xs w ys to_upper]
    by (simp add: keyword_case_def toUpperCase_def[abs_def])
next
  assume "keyword_at xs w ys \<and> keywordCase opts = Some ''lower''"
  then show "take (length w) (drop (length xs) (keyword_case opts (xs @ w @ ys))) = toLowerCase w"
    using keyword_slice[of xs w ys to_lower]
    by (simp add: keyword_case_def toLowerCase_def[abs_def] falsy_def)
next
  assume "keywordCase opts = Some ''preserve''"
  then show "keyword_case opts s = s"
    by (simp add: keyword_case_def falsy_def)
next
  show "toUpperCase (keyword_case opts s) = toUpperCase s"
    unfolding keyword_case_def toUpperCase_def[abs_def] toLowerCase_def[abs_def]
    by (simp add: replace_all_map[of to_upper to_upper] replace_all_map[of to_upper to_lower]
        to_upper_idem to_upper_lower)
qed

theorem keyword_case_stage_witness:
  "keyword_at ''a '' ''in'' '' b'' \<and> falsy (keywordCase defaults)
   \<and> take (length ''in'') (drop (length ''a '') (keyword_case defaults (''a '' @ ''in'' @ '' b'')))
       = toUpperCase ''in''
   \<and> keywordCase (defaults\<lparr>keywordCase := Some ''lower''\<rparr>) = Some ''lower''
   \<and> take (length ''in'') (drop (length ''a '')
         (keyword_case (defaults\<lparr>keywordCase := Some ''lower''\<rparr>) (''a '' @ ''in'' @ '' b'')))
       = toLowerCase ''in''
   \<and> keywordCase (defaults\<lparr>keywordCase := Some ''preserve''\<rparr>) = Some ''preserve''
   \<and> keyword_case (defaults\<lparr>keywordCase := Some ''preserve''\<rparr>) ''a In b'' = ''a In b''"
proof -
  have k: "keyword_at ''a '' ''in'' '' b''" by code_simp
  have u: "falsy (keywordCase defaults)" by code_simp
  have l: "keywordCase (defaults\<lparr>keywordCase := Some ''lower''\<rparr>) = Some ''lower''" by simp
  have p: "keywordCase (defaults\<lparr>keywordCase := Some ''preserve''\<rparr>) = Some ''preserve''" by simp
  show ?thesis
    using k u l p
      keyword_case_stage[of "''a ''" "''in''" "'' b''" defaults]
      keyword_case_stage[of "''a ''" "''in''" "'' b''" "defaults\<lparr>keywordCase := Some ''lower''\<rparr>"]
      keyword_case_stage[of _ _ _ "defaults\<lparr>keywordCase := Some ''preserve''\<rparr>" "''a In b''"]
    by blast
qed






text \<open>
  C5: two options records that agree on \<^verbatim>\<open>keywordCase\<close> and \<^verbatim>\<open>commaPosition\<close> give the
  same result on every input, whatever their \<^verbatim>\<open>indentStyle\<close>, \<^verbatim>\<open>linesBetweenQueries\<close>
  and \<^verbatim>\<open>maxColumnLength\<close>.
\<close>

theorem unused_options_noninterference:
  "keywordCase o1 = keywordCase o2 \<Longrightarrow> commaPosition o1 = commaPosition o2 \<Longrightarrow>
     formatSqlString sql o1 = formatSqlString sql o2"
  by (rule format_cong) (simp_all add: comma_separator_def keyword_case_def onKeyword_def)

theorem unused_options_noninterference_witness:
  "keywordCase defaults
     = keywordCase (defaults\<lparr>indentStyle := Some ''tabular'', linesBetweenQueries := Some 3,
                             maxColumnLength := Some 10\<rparr>)
   \<and> commaPosition defaults
     = commaPosition (defaults\<lparr>indentStyle := Some ''tabular'', linesBetweenQueries := Some 3,
                             maxColumnLength := Some 10\<rparr>)
   \<and> formatSqlString ''select a,b from t'' defaults
     = formatSqlString ''select a,b from t''
         (defaults\<lparr>indentStyle := Some ''tabular'', linesBetweenQueries := Some 3,
                   maxColumnLength := Some 10\<rparr>)"
  using unused_options_noninterference[of defaults
      "defaults\<lparr>indentStyle := Some ''tabular'', linesBetweenQueries := Some 3,
                maxColumnLength := Some 10\<rparr>" "''select a,b from t''"]
  by simp

text \<open>
  C6 (as amended): a \<^verbatim>\<open>keywordCase\<close> that is not empty and is neither \<^verbatim>\<open>upper\<close> nor
  \<^verbatim>\<open>lower\<close> gives the same result as \<^verbatim>\<open>preserve\<close> on every input; an absent or empty
  \<^verbatim>\<open>keywordCase\<close> gives the same result as \<^verbatim>\<open>upper\<close>.
\<close>

theorem unrecognized_keyword_case:
  "(k \<noteq> ''upper'' \<and> k \<noteq> ''lower'' \<and> k \<noteq> [] \<longrightarrow>
      formatSqlString sql (opts\<lparr>keywordCase := Some k\<rparr>)
        = formatSqlString sql (opts\<lparr>keywordCase := Some ''preserve''\<rparr>))
   \<and> formatSqlString sql (opts\<lparr>keywordCase := None\<rparr>)
        = formatSqlString sql (opts\<lparr>keywordCase := Some ''upper''\<rparr>)
   \<and> formatSqlString sql (opts\<lparr>keywordCase := Some []\<rparr>)
        = formatSqlString sql (opts\<lparr>keywordCase := Some ''upper''\<rparr>)"
  by (intro conjI impI format_cong)
     (simp_all add: comma_separator_def keyword_case_def onKeyword_def falsy_def)

theorem unrecognized_keyword_case_witness:
  "''title'' \<noteq> ''upper'' \<and> ''title'' \<noteq> ''lower'' \<and> ''title'' \<noteq> []
   \<and> formatSqlString ''select a'' (defaults\<lparr>keywordCase := Some ''title''\<rparr>)
        = formatSqlString ''select a'' (defaults\<lparr>keywordCase := Some ''preserve''\<rparr>)"
  using unrecognized_keyword_case[of "''title''" "''select a''" defaults]
  by simp

text \<open>
  With \<^verbatim>\<open>keywordCase\<close> set to the unrecognized value \<^verbatim>\<open>title\<close> the keyword of
  \<^verbatim>\<open>select a\<close> keeps its case, and with \<^verbatim>\<open>upper\<close> it does not.
\<close>

theorem unrecognized_keyword_case_counterexample:
  "formatSqlString ''select a'' (defaults\<lparr>keywordCase := Some ''title''\<rparr>) = Inr ''select a''
   \<and> formatSqlString ''select a'' (defaults\<lparr>keywordCase := Some ''upper''\<rparr>) = Inr ''SELECT a''"
  by code_simp

text \<open>
  C7: the formatter returns a string for every input and every options record. Every
  function of the model terminates, and the one fault of the model (a string method
  called on an element of \<^verbatim>\<open>joinParts\<close> out of range) is never reached.
\<close>

theorem format_never_fails: "\<exists>out. formatSqlString sql opts = Inr out"
proof -
  obtain clauses where "segment (keyword_case opts (normalize opts sql)) = Inr clauses"
    using segment_ok by blast
  then show ?thesis by (simp add: formatSqlString_def)
qed

text \<open>
  C8: the number of output lines is the number of top-level clauses plus the number of
  \<^verbatim>\<open>JOIN\<close> units. The formatter breaks it on \<^verbatim>\<open>select a from t_join where b\<close>: the
  input has three clause keywords and no \<^verbatim>\<open>JOIN\<close> unit (the regular expression of the
  \<^verbatim>\<open>JOIN\<close> split finds none in the body of \<^verbatim>\<open>FROM\<close>), and the result has four lines,
  because the table name ends in the letters of \<^verbatim>\<open>JOIN\<close>.
\<close>

theorem join_suffix_breaks_clause:
  "formatSqlString ''select a from t_join where b'' defaults
     = Inr (''SELECT a'' @ [CHR 0x0A] @ ''FROM'' @ [CHR 0x0A] @ ''t_join'' @ [CHR 0x0A] @ ''WHERE b'')
   \<and> split_re re_main ''SELECT a FROM t_join WHERE b''
     = ['''', ''SELECT'', '' a '', ''FROM'', '' t_join '', ''WHERE'', '' b'']
   \<and> split_re re_join '' t_join '' = ['' t_join '']"
  by code_simp

text \<open>
  C9: with default options, the result of the formatter is a fixed point of the formatter:
  formatting it again returns it, code unit for code unit. So the second result is
  identical to the first after the white space normalization stage as well, and the
  clause boundaries are stable.
\<close>

theorem format_idempotent:
  "\<exists>y. formatSqlString x defaults = Inr y \<and> formatSqlString y defaults = Inr y
       \<and> (\<exists>z. formatSqlString y defaults = Inr z
               \<and> normalize_whitespace z = normalize_whitespace y)"
proof -
  let ?M1 = "keyword_case defaults (normalize defaults x)"
  obtain C1 where seg1: "segment ?M1 = Inr C1" using segment_ok by blast
  let ?y = "assemble defaults C1"
  let ?N0 = "normalize defaults ?y"
  have k: "keyword_case defaults ?N0 = ?N0" by (rule second_case[OF seg1])
  obtain C2 where seg2: "segment ?N0 = Inr C2" using segment_ok by blast
  let ?ne = "\<lambda>c::string. c \<noteq> []"
  let ?D = "map (fix_on defaults) (filter ?ne C1)"
  have r12: "list_all2 (list_all2 raise) C1 C2"
    by (rule segment_rel[OF aligned[OF seg1] seg1 seg2])
  have a: "list_all2 (list_all2 raise) (filter ?ne C1) (filter ?ne C2)"
    by (rule filter_rel[OF r12])
  have b: "list_all2 (list_all2 raise) (filter ?ne C1) ?D"
    by (simp add: list_all2_map2 list_all2_same fix_on_raise)
  have y: "?y = join_with [CHR 0x0A] ?D" by (simp add: assemble_def)
  have "concat (map non_space (filter ?ne C2)) = non_space ?N0"
    using segment_non_space[OF seg2] by (simp add: non_space_filter)
  also have "\<dots> = non_space ?y" by (rule non_space_normalize)
  also have "\<dots> = concat (map non_space ?D)" unfolding y by (rule non_space_join)
  finally have "filter ?ne C2 = ?D" by (rule exact[OF a b])
  then have "assemble defaults C2 = join_with [CHR 0x0A] (map (fix_on defaults) ?D)"
    by (simp add: assemble_def)
  also have "map (fix_on defaults) ?D = ?D" by (simp add: fix_on_idem)
  finally have z: "assemble defaults C2 = ?y" using y by simp
  have 1: "formatSqlString x defaults = Inr ?y" using seg1 by (simp add: formatSqlString_def)
  have 2: "formatSqlString ?y defaults = Inr ?y"
    using seg2 k z by (simp add: formatSqlString_def)
  from 1 2 show ?thesis by blast
qed

text \<open>
  C10: an input of white space only (or the empty input) is formatted to the empty
  string, with every options record.
\<close>

theorem blank_input_gives_empty:
  "\<forall>c\<in>set sql. is_space c \<Longrightarrow> formatSqlString sql opts = Inr []"
  by (simp add: normalize_whitespace_blank format_of_empty_normal)

theorem blank_input_gives_empty_witness:
  "list_all is_space [CHR '' '', CHR 0x09, CHR 0x0A, CHR '' '']
   \<and> formatSqlString [CHR '' '', CHR 0x09, CHR 0x0A, CHR '' ''] defaults = Inr []"
proof -
  have h: "list_all is_space [CHR '' '', CHR 0x09, CHR 0x0A, CHR '' '']" by code_simp
  then have "\<forall>c\<in>set [CHR '' '', CHR 0x09, CHR 0x0A, CHR '' '']. is_space c"
    unfolding list_all_iff .
  from blank_input_gives_empty[OF this] h show ?thesis by blast
qed

end
